theory Spec2Isabelle
  imports Complex_Main "HOL-Library.Word" "HOL-Library.Monad_Syntax"
begin

section \<open>Data model\<close>

text \<open>
  The linked list of \<^verbatim>\<open>linked-list.js\<close> is built from mutable node objects that
  refer to each other through \<^verbatim>\<open>next\<close> and \<^verbatim>\<open>prev\<close>. The objects live in an
  explicit store: a list of nodes, an object reference being the index of the node
  (\<open>None\<close> is \<^verbatim>\<open>null\<close>). Allocation appends to the store, nothing is ever freed.
  References are only ever produced by allocation, so a reference that occurs in a
  state the program can build is below the length of the store.
\<close>

datatype error = TypeError

type_synonym addr = nat

record ('k, 'v) LinkedListNode =
  key :: 'k
  val :: 'v
  "next" :: "addr option"
  prev :: "addr option"

type_synonym ('k, 'v) heap = "('k, 'v) LinkedListNode list"

text \<open>The closure variables of one \<^verbatim>\<open>LinkedList()\<close>.\<close>

record LinkedList =
  firstNode :: "addr option"
  lastNode :: "addr option"
  nodeCount :: nat

text \<open>
  The state of one \<^verbatim>\<open>HashMap()\<close>: the store of all nodes its lists have allocated
  and the closure variable \<^verbatim>\<open>buckets\<close>. The hash function is fixed at construction
  and passed to the operations as a parameter. Its result is \<open>Some i\<close> for the natural
  number \<open>i\<close> and \<open>None\<close> for any other JavaScript value (\<^verbatim>\<open>NaN\<close>, a negative or
  fractional number), which indexes no bucket.
\<close>

record ('k, 'v) HashMap =
  heap :: "('k, 'v) heap"
  buckets :: "LinkedList list"

type_synonym 'k hashFn = "'k \<Rightarrow> nat \<Rightarrow> nat option"

text \<open>A JavaScript string is a sequence of UTF-16 code units.\<close>

type_synonym jsstring = "16 word list"

section \<open>linked-list.js\<close>

definition LinkedListNode :: "'k \<Rightarrow> 'v \<Rightarrow> ('k, 'v) LinkedListNode" where
  "LinkedListNode k v = \<lparr>key = k, val = v, next = None, prev = None\<rparr>"

definition LinkedList :: LinkedList where
  "LinkedList = \<lparr>firstNode = None, lastNode = None, nodeCount = 0\<rparr>"

text \<open>
  The loops that follow \<^verbatim>\<open>next\<close> need not end on a cyclic store, so they are partial:
  \<open>None\<close> is the loop that never returns.
\<close>

partial_function (option) search_loop ::
  "('k, 'v) heap \<Rightarrow> 'k \<Rightarrow> addr option \<Rightarrow> addr option option" where
  "search_loop h k currentNode =
     (case currentNode of
        None \<Rightarrow> Some None
      | Some a \<Rightarrow>
          if key (h ! a) \<noteq> k then search_loop h k (next (h ! a)) else Some (Some a))"

declare search_loop.simps [code]

definition search :: "('k, 'v) heap \<Rightarrow> LinkedList \<Rightarrow> 'k \<Rightarrow> addr option option" where
  "search h l k = search_loop h k (firstNode l)"

text \<open>
  The \<^verbatim>\<open>for\<close> loop of \<^verbatim>\<open>append\<close>: on a node with the key it overwrites the value and
  breaks with \<^verbatim>\<open>nodeToReturn\<close> set; otherwise it ends with \<^verbatim>\<open>nodeToReturn\<close> null.
\<close>

partial_function (option) append_loop ::
  "('k, 'v) heap \<Rightarrow> 'k \<Rightarrow> 'v \<Rightarrow> addr option \<Rightarrow> (('k, 'v) heap \<times> addr option) option" where
  "append_loop h k v currentNode =
     (case currentNode of
        None \<Rightarrow> Some (h, None)
      | Some a \<Rightarrow>
          if key (h ! a) = k then Some (h[a := (h ! a)\<lparr>val := v\<rparr>], Some a)
          else append_loop h k v (next (h ! a)))"

declare append_loop.simps [code]

definition append_ll ::
  "('k, 'v) heap \<Rightarrow> LinkedList \<Rightarrow> 'k \<Rightarrow> 'v \<Rightarrow> (('k, 'v) heap \<times> LinkedList \<times> addr) option" where
  "append_ll h l k v =
     (case append_loop h k v (firstNode l) of
        None \<Rightarrow> None
      | Some (h1, Some a) \<Rightarrow> Some (h1, l, a)
      | Some (h1, None) \<Rightarrow>
          (let newNode = length h1;
               h2 = h1 @ [(LinkedListNode k v)\<lparr>next := firstNode l\<rparr>];
               h3 = (case firstNode l of
                       Some f \<Rightarrow> h2[f := (h2 ! f)\<lparr>prev := Some newNode\<rparr>]
                     | None \<Rightarrow> h2);
               l1 = l\<lparr>firstNode := Some newNode\<rparr>;
               l2 = (if lastNode l1 = None then l1\<lparr>lastNode := firstNode l1\<rparr> else l1);
               l3 = l2\<lparr>nodeCount := nodeCount l2 + 1\<rparr>
           in Some (h3, l3, newNode)))"

text \<open>
  The assignments \<^verbatim>\<open>p.prev = x\<close> and \<^verbatim>\<open>p.next = x\<close> through a reference \<open>p\<close> that may
  be \<^verbatim>\<open>null\<close>: JavaScript throws a TypeError on a null reference.
\<close>

definition assign_prev ::
  "('k, 'v) heap \<Rightarrow> addr option \<Rightarrow> addr option \<Rightarrow> error + ('k, 'v) heap" where
  "assign_prev h p x =
     (case p of None \<Rightarrow> Inl TypeError | Some a \<Rightarrow> Inr (h[a := (h ! a)\<lparr>prev := x\<rparr>]))"

definition assign_next ::
  "('k, 'v) heap \<Rightarrow> addr option \<Rightarrow> addr option \<Rightarrow> error + ('k, 'v) heap" where
  "assign_next h p x =
     (case p of None \<Rightarrow> Inl TypeError | Some a \<Rightarrow> Inr (h[a := (h ! a)\<lparr>next := x\<rparr>]))"

text \<open>
  \<^verbatim>\<open>remove(node)\<close>. The result carries the store and the list as they are when the
  function returns or throws: the decrement of \<^verbatim>\<open>nodeCount\<close> and the assignments made
  before a throw stay.
\<close>

definition remove_ll ::
  "('k, 'v) heap \<Rightarrow> LinkedList \<Rightarrow> addr \<Rightarrow> (error + unit) \<times> ('k, 'v) heap \<times> LinkedList" where
  "remove_ll h l node =
     (if nodeCount l \<noteq> 0 then
        (let l1 = l\<lparr>nodeCount := nodeCount l - 1\<rparr>;
             (r1, h1, l2) =
               (if prev (h ! node) = None then
                  (let l2 = l1\<lparr>firstNode := next (h ! node)\<rparr> in
                   case assign_prev h (next (h ! node)) None of
                     Inl e \<Rightarrow> (Inl e, h, l2)
                   | Inr h' \<Rightarrow> (Inr (), h', l2))
                else
                  (case assign_next h (prev (h ! node)) (next (h ! node)) of
                     Inl e \<Rightarrow> (Inl e, h, l1)
                   | Inr h' \<Rightarrow> (Inr (), h', l1)))
         in case r1 of
              Inl e \<Rightarrow> (Inl e, h1, l2)
            | Inr _ \<Rightarrow>
                (if next (h1 ! node) = None then
                   (let l3 = l2\<lparr>lastNode := prev (h1 ! node)\<rparr> in
                    case assign_next h1 (prev (h1 ! node)) None of
                      Inl e \<Rightarrow> (Inl e, h1, l3)
                    | Inr h' \<Rightarrow> (Inr (), h', l3))
                 else
                   (case assign_prev h1 (next (h1 ! node)) (prev (h1 ! node)) of
                      Inl e \<Rightarrow> (Inl e, h1, l2)
                    | Inr h' \<Rightarrow> (Inr (), h', l2))))
      else (Inr (), h, l))"

definition clear_ll :: "LinkedList \<Rightarrow> LinkedList" where
  "clear_ll l = l\<lparr>firstNode := None, lastNode := None, nodeCount := 0\<rparr>"

text \<open>
  \<^verbatim>\<open>forEach(callback)\<close>. The callbacks of \<^verbatim>\<open>hash-map.js\<close> only read the node and push
  to the array \<^verbatim>\<open>result\<close> they capture, so a callback is a function from the node
  and the captured variable to the new value of that variable.
\<close>

partial_function (option) forEach_loop ::
  "('k, 'v) heap \<Rightarrow> (('k, 'v) LinkedListNode \<Rightarrow> 'r \<Rightarrow> 'r) \<Rightarrow> addr option \<Rightarrow> 'r \<Rightarrow> 'r option" where
  "forEach_loop h callback currentNode r =
     (case currentNode of
        None \<Rightarrow> Some r
      | Some a \<Rightarrow> forEach_loop h callback (next (h ! a)) (callback (h ! a) r))"

declare forEach_loop.simps [code]

definition forEach ::
  "('k, 'v) heap \<Rightarrow> LinkedList \<Rightarrow> (('k, 'v) LinkedListNode \<Rightarrow> 'r \<Rightarrow> 'r) \<Rightarrow> 'r \<Rightarrow> 'r option" where
  "forEach h l callback r = forEach_loop h callback (firstNode l) r"

section \<open>hash-map.js\<close>

text \<open>
  \<^verbatim>\<open>defaultHashFunction\<close>. The numbers stay far below \<open>2 ^ 53\<close> for every bucket
  count an array can have, so the floating-point arithmetic of JavaScript is exact
  and the model computes on natural numbers. The remainder by zero is \<^verbatim>\<open>NaN\<close>,
  which every later step keeps.
\<close>

fun defaultHashFunction_loop :: "jsstring \<Rightarrow> nat \<Rightarrow> nat option \<Rightarrow> nat option" where
  "defaultHashFunction_loop [] bucketCount hashCode = hashCode"
| "defaultHashFunction_loop (c # cs) bucketCount hashCode =
     defaultHashFunction_loop cs bucketCount
       (case hashCode of
          None \<Rightarrow> None
        | Some x \<Rightarrow> if bucketCount = 0 then None else Some ((x * 31 + unat c) mod bucketCount))"

definition defaultHashFunction :: "jsstring hashFn" where
  "defaultHashFunction stringAsKey bucketCount =
     defaultHashFunction_loop stringAsKey bucketCount (Some 0)"

text \<open>
  \<^verbatim>\<open>buckets[hash]\<close> followed by a method call: an index that is no natural number
  below \<^verbatim>\<open>buckets.length\<close> reads \<^verbatim>\<open>undefined\<close>, and the call on it throws.
\<close>

definition bucket_at :: "('k, 'v) HashMap \<Rightarrow> nat option \<Rightarrow> error + nat" where
  "bucket_at t hash =
     (case hash of
        None \<Rightarrow> Inl TypeError
      | Some i \<Rightarrow> if i < length (buckets t) then Inr i else Inl TypeError)"

definition length_hm :: "('k, 'v) HashMap \<Rightarrow> nat" where
  "length_hm t = foldl (\<lambda>result list. result + nodeCount list) 0 (buckets t)"

text \<open>
  \<^verbatim>\<open>loadFactor\<close>: the quotient as a rational number, \<open>None\<close> for \<^verbatim>\<open>NaN\<close> (no bucket,
  hence no entry: \<^verbatim>\<open>0 / 0\<close>). The quotient of JavaScript is the nearest double: it
  compares with \<^verbatim>\<open>0.75\<close> as the exact quotient does for every array length.
\<close>

definition loadFactor :: "('k, 'v) HashMap \<Rightarrow> rat option" where
  "loadFactor t =
     (if length (buckets t) = 0 then None
      else Some (of_nat (length_hm t) / of_nat (length (buckets t))))"

text \<open>
  \<^verbatim>\<open>resize\<close>: a new array of empty lists; the nodes of the old lists stay in the
  store, unreachable. The model bounds neither the length of an array nor the number
  of nodes: memory is taken to suffice.
\<close>

definition resize :: "nat \<Rightarrow> ('k, 'v) HashMap \<Rightarrow> ('k, 'v) HashMap" where
  "resize bucketCount t = t\<lparr>buckets := replicate bucketCount LinkedList\<rparr>"

text \<open>\<^verbatim>\<open>buckets.forEach(list => list.forEach(callback))\<close>, with the captured array.\<close>

fun buckets_forEach ::
  "('k, 'v) heap \<Rightarrow> (('k, 'v) LinkedListNode \<Rightarrow> 'r \<Rightarrow> 'r) \<Rightarrow> LinkedList list \<Rightarrow> 'r \<Rightarrow> 'r option" where
  "buckets_forEach h callback [] r = Some r"
| "buckets_forEach h callback (list # rest) r =
     (case forEach h list callback r of
        None \<Rightarrow> None
      | Some r' \<Rightarrow> buckets_forEach h callback rest r')"

definition keys :: "('k, 'v) HashMap \<Rightarrow> 'k list option" where
  "keys t = buckets_forEach (heap t) (\<lambda>node result. result @ [key node]) (buckets t) []"

definition entries :: "('k, 'v) HashMap \<Rightarrow> ('k \<times> 'v) list option" where
  "entries t =
     buckets_forEach (heap t) (\<lambda>node result. result @ [(key node, val node)]) (buckets t) []"

text \<open>
  An operation that changes the table returns, if it returns at all, its result or
  the error it throws, together with the table as it is at that moment.
\<close>

type_synonym ('a, 'k, 'v) outcome = "((error + 'a) \<times> ('k, 'v) HashMap) option"

text \<open>
  \<^verbatim>\<open>elements.forEach(({ key, value }) => { set(key, value); })\<close>: an exception of
  the callback ends the loop.
\<close>

fun elements_forEach ::
  "(('k, 'v) HashMap \<Rightarrow> 'k \<Rightarrow> 'v \<Rightarrow> (unit, 'k, 'v) outcome) \<Rightarrow> ('k, 'v) HashMap \<Rightarrow>
   ('k \<times> 'v) list \<Rightarrow> (unit, 'k, 'v) outcome" where
  "elements_forEach set_cb t [] = Some (Inr (), t)"
| "elements_forEach set_cb t ((k, v) # elements) =
     (case set_cb t k v of
        None \<Rightarrow> None
      | Some (Inl e, t') \<Rightarrow> Some (Inl e, t')
      | Some (Inr _, t') \<Rightarrow> elements_forEach set_cb t' elements)"

text \<open>
  \<^verbatim>\<open>resizeBucketsIfNeeded\<close> and \<^verbatim>\<open>set\<close> call each other; \<^verbatim>\<open>resizeBucketsIfNeeded\<close>
  takes the \<^verbatim>\<open>set\<close> it calls as a parameter. \<^verbatim>\<open>NaN >= 0.75\<close> is false.
\<close>

definition resizeBucketsIfNeeded ::
  "(('k, 'v) HashMap \<Rightarrow> 'k \<Rightarrow> 'v \<Rightarrow> (unit, 'k, 'v) outcome) \<Rightarrow> ('k, 'v) HashMap \<Rightarrow>
   (unit, 'k, 'v) outcome" where
  "resizeBucketsIfNeeded set_cb t =
     (if (case loadFactor t of None \<Rightarrow> False | Some f \<Rightarrow> f \<ge> 3 / 4) then
        (case entries t of
           None \<Rightarrow> None
         | Some elements \<Rightarrow>
             elements_forEach set_cb (resize (length (buckets t) * 2) t) elements)
      else Some (Inr (), t))"

lemma elements_forEach_mono [partial_function_mono]:
  assumes "\<And>t k v. mono_option (\<lambda>f. B f t k v)"
  shows "mono_option (\<lambda>f. elements_forEach (B f) t elements)"
proof (induction elements arbitrary: t)
  case Nil
  show ?case by (simp add: option.const_mono)
next
  case (Cons kv elements)
  obtain k v where kv: "kv = (k, v)" by (cases kv)
  have eq: "(\<lambda>f. elements_forEach (B f) t (kv # elements)) =
    (\<lambda>f. Option.bind (B f t k v)
       (\<lambda>r. case r of (Inl e, t') \<Rightarrow> Some (Inl e, t')
                     | (Inr _, t') \<Rightarrow> elements_forEach (B f) t' elements))"
    by (auto simp: kv fun_eq_iff split: option.splits)
  show ?case unfolding eq
  proof (rule bind_mono [OF assms])
    fix r :: "(error + unit) \<times> ('a, 'b) HashMap"
    obtain x t' where r: "r = (x, t')" by (cases r)
    show "mono_option (\<lambda>f. case r of (Inl e, t') \<Rightarrow> Some (Inl e, t')
                               | (Inr _, t') \<Rightarrow> elements_forEach (B f) t' elements)"
      unfolding r by (cases x) (simp_all add: option.const_mono Cons.IH)
  qed
qed

lemma resizeBucketsIfNeeded_mono [partial_function_mono]:
  assumes "\<And>t k v. mono_option (\<lambda>f. B f t k v)"
  shows "mono_option (\<lambda>f. resizeBucketsIfNeeded (B f) t)"
  unfolding resizeBucketsIfNeeded_def
proof (rule if_mono)
  show "mono_option (\<lambda>f. case entries t of None \<Rightarrow> None
          | Some elements \<Rightarrow>
              elements_forEach (B f) (resize (length (buckets t) * 2) t) elements)"
    by (cases "entries t") (simp_all add: option.const_mono elements_forEach_mono assms)
  show "mono_option (\<lambda>f. Some (Inr (), t))"
    by (rule option.const_mono)
qed

partial_function (option) set_hm ::
  "'k hashFn \<Rightarrow> ('k, 'v) HashMap \<Rightarrow> 'k \<Rightarrow> 'v \<Rightarrow> (unit, 'k, 'v) outcome" where
  "set_hm hashFn t key_arg value_arg =
     do {
       (r, t1) \<leftarrow> resizeBucketsIfNeeded (set_hm hashFn) t;
       case r of
         Inl e \<Rightarrow> Some (Inl e, t1)
       | Inr _ \<Rightarrow>
           (case bucket_at t1 (hashFn key_arg (length (buckets t1))) of
              Inl e \<Rightarrow> Some (Inl e, t1)
            | Inr hash \<Rightarrow>
                (case append_ll (heap t1) (buckets t1 ! hash) key_arg value_arg of
                   None \<Rightarrow> None
                 | Some (h', l', _) \<Rightarrow>
                     Some (Inr (), t1\<lparr>heap := h', buckets := (buckets t1)[hash := l']\<rparr>)))
     }"

declare set_hm.simps [code]

definition get :: "'k hashFn \<Rightarrow> ('k, 'v) HashMap \<Rightarrow> 'k \<Rightarrow> (error + 'v option) option" where
  "get hashFn t key_arg =
     (case bucket_at t (hashFn key_arg (length (buckets t))) of
        Inl e \<Rightarrow> Some (Inl e)
      | Inr hash \<Rightarrow>
          (case search (heap t) (buckets t ! hash) key_arg of
             None \<Rightarrow> None
           | Some None \<Rightarrow> Some (Inr None)
           | Some (Some result) \<Rightarrow> Some (Inr (Some (val (heap t ! result))))))"

definition has :: "'k hashFn \<Rightarrow> ('k, 'v) HashMap \<Rightarrow> 'k \<Rightarrow> (error + bool) option" where
  "has hashFn t key_arg =
     (case bucket_at t (hashFn key_arg (length (buckets t))) of
        Inl e \<Rightarrow> Some (Inl e)
      | Inr hash \<Rightarrow>
          (case search (heap t) (buckets t ! hash) key_arg of
             None \<Rightarrow> None
           | Some result \<Rightarrow> Some (Inr (result \<noteq> None))))"

definition remove_hm :: "'k hashFn \<Rightarrow> ('k, 'v) HashMap \<Rightarrow> 'k \<Rightarrow> (bool, 'k, 'v) outcome" where
  "remove_hm hashFn t key_arg =
     (case bucket_at t (hashFn key_arg (length (buckets t))) of
        Inl e \<Rightarrow> Some (Inl e, t)
      | Inr hash \<Rightarrow>
          (case search (heap t) (buckets t ! hash) key_arg of
             None \<Rightarrow> None
           | Some None \<Rightarrow> Some (Inr False, t)
           | Some (Some toRemove) \<Rightarrow>
               (case remove_ll (heap t) (buckets t ! hash) toRemove of
                  (Inl e, h', l') \<Rightarrow>
                    Some (Inl e, t\<lparr>heap := h', buckets := (buckets t)[hash := l']\<rparr>)
                | (Inr _, h', l') \<Rightarrow>
                    Some (Inr True, t\<lparr>heap := h', buckets := (buckets t)[hash := l']\<rparr>))))"

definition clear_hm :: "('k, 'v) HashMap \<Rightarrow> ('k, 'v) HashMap" where
  "clear_hm t = t\<lparr>buckets := map clear_ll (buckets t)\<rparr>"

text \<open>\<^verbatim>\<open>HashMap(hashFn)\<close>: \<^verbatim>\<open>buckets\<close> starts as null and \<^verbatim>\<open>resize(16)\<close> replaces it.\<close>

definition HashMap :: "('k, 'v) HashMap" where
  "HashMap = resize 16 \<lparr>heap = [], buckets = []\<rparr>"

section \<open>Callers\<close>

text \<open>
  The operations of the public interface that change the table. A caller runs a
  sequence of them; an operation that throws leaves the table as it is at the throw,
  and a caller that catches the exception goes on with that table.
\<close>

datatype ('k, 'v) operation = Set 'k 'v | Remove 'k | Clear

fun step :: "'k hashFn \<Rightarrow> ('k, 'v) HashMap \<Rightarrow> ('k, 'v) operation \<Rightarrow> ('k, 'v) HashMap option" where
  "step hashFn t (Set k v) = map_option snd (set_hm hashFn t k v)"
| "step hashFn t (Remove k) = map_option snd (remove_hm hashFn t k)"
| "step hashFn t Clear = Some (clear_hm t)"

fun run :: "'k hashFn \<Rightarrow> ('k, 'v) HashMap \<Rightarrow> ('k, 'v) operation list \<Rightarrow> ('k, 'v) HashMap option" where
  "run hashFn t [] = Some t"
| "run hashFn t (x # xs) =
     (case step hashFn t x of None \<Rightarrow> None | Some t' \<Rightarrow> run hashFn t' xs)"

section \<open>Invariants and abstraction\<close>

text \<open>
  The list of addresses that a traversal from a reference visits up to another
  reference, the \<^verbatim>\<open>prev\<close> links along such a list, and the key/value pairs it holds.
\<close>

fun path :: "('k, 'v) heap \<Rightarrow> addr option \<Rightarrow> addr list \<Rightarrow> addr option \<Rightarrow> bool" where
  "path h p [] q = (p = q)"
| "path h p (a # as) q = (p = Some a \<and> a < length h \<and> path h (next (h ! a)) as q)"

fun back_links :: "('k, 'v) heap \<Rightarrow> addr option \<Rightarrow> addr list \<Rightarrow> bool" where
  "back_links h p [] = True"
| "back_links h p (a # as) = (prev (h ! a) = p \<and> back_links h (Some a) as)"

definition entries_of :: "('k, 'v) heap \<Rightarrow> addr list \<Rightarrow> ('k \<times> 'v) list" where
  "entries_of h as = map (\<lambda>a. (key (h ! a), val (h ! a))) as"

definition list_inv :: "('k, 'v) heap \<Rightarrow> LinkedList \<Rightarrow> addr list \<Rightarrow> bool" where
  "list_inv h l as \<longleftrightarrow>
     path h (firstNode l) as None \<and> back_links h None as \<and> nodeCount l = length as \<and>
     distinct as \<and> distinct (map fst (entries_of h as))"


text \<open>
  A hash function in the sense of the table: for a positive bucket count it returns
  an index below that count. The table invariant gives every bucket its list of
  addresses: the lists are well formed and apart from each other, and every key
  sits in the bucket its hash names. \<open>put\<close> is the part of \<^verbatim>\<open>set\<close> after the call of
  \<^verbatim>\<open>resizeBucketsIfNeeded\<close> (the index computation and the \<^verbatim>\<open>append\<close>).
\<close>

definition valid_hash :: "'k hashFn \<Rightarrow> bool" where
  "valid_hash hashFn \<longleftrightarrow> (\<forall>k n. 0 < n \<longrightarrow> (\<exists>i<n. hashFn k n = Some i))"

definition table_inv :: "'k hashFn \<Rightarrow> ('k, 'v) HashMap \<Rightarrow> addr list list \<Rightarrow> bool" where
  "table_inv hashFn t ass \<longleftrightarrow>
     length ass = length (buckets t) \<and>
     (\<forall>i<length ass. list_inv (heap t) (buckets t ! i) (ass ! i) \<and>
        (\<forall>a\<in>set (ass ! i). hashFn (key (heap t ! a)) (length ass) = Some i)) \<and>
     (\<forall>i<length ass. \<forall>j<length ass. i \<noteq> j \<longrightarrow> set (ass ! i) \<inter> set (ass ! j) = {})"

definition put :: "'k hashFn \<Rightarrow> ('k, 'v) HashMap \<Rightarrow> 'k \<Rightarrow> 'v \<Rightarrow> (unit, 'k, 'v) outcome" where
  "put hashFn t1 key_arg value_arg =
     (case bucket_at t1 (hashFn key_arg (length (buckets t1))) of
        Inl e \<Rightarrow> Some (Inl e, t1)
      | Inr hash \<Rightarrow>
          (case append_ll (heap t1) (buckets t1 ! hash) key_arg value_arg of
             None \<Rightarrow> None
           | Some (h', l', _) \<Rightarrow>
               Some (Inr (), t1\<lparr>heap := h', buckets := (buckets t1)[hash := l']\<rparr>)))"


text \<open>
  What holds of every table the public operations can build: the table invariant,
  at least one bucket, and a load that exceeds three quarters by at most the one
  entry the last \<^verbatim>\<open>set\<close> added.
\<close>

definition table_ok :: "'k hashFn \<Rightarrow> ('k, 'v) HashMap \<Rightarrow> bool" where
  "table_ok hashFn t \<longleftrightarrow>
     (\<exists>ass. table_inv hashFn t ass) \<and> 0 < length (buckets t) \<and>
     4 * length_hm t \<le> 3 * length (buckets t) + 3"

text \<open>
  What the specification expects of a sequence of operations. \<open>apply_op\<close> is the
  effect of one operation on a dictionary. \<open>latest_value k\<close> reads the operations
  from the most recent one backwards: the value of the most recent \<^verbatim>\<open>set\<close> of the key
  unless a \<^verbatim>\<open>remove\<close> of the key or a \<^verbatim>\<open>clear\<close> came after it.
\<close>

fun apply_op :: "('k, 'v) operation \<Rightarrow> ('k \<rightharpoonup> 'v) \<Rightarrow> ('k \<rightharpoonup> 'v)" where
  "apply_op (Set k v) m = m(k \<mapsto> v)"
| "apply_op (Remove k) m = m(k := None)"
| "apply_op Clear m = Map.empty"

fun latest_value :: "'k \<Rightarrow> ('k, 'v) operation list \<Rightarrow> 'v option" where
  "latest_value k [] = None"
| "latest_value k (Set k' v # earlier) = (if k' = k then Some v else latest_value k earlier)"
| "latest_value k (Remove k' # earlier) = (if k' = k then None else latest_value k earlier)"
| "latest_value k (Clear # earlier) = None"


text \<open>
  Two concrete callers, for the examples below. The keys are one-character strings:
  the default hash of such a key is its character code modulo the bucket count.
  \<open>twelve_sets\<close> fills twelve of the sixteen buckets, so \<^verbatim>\<open>loadFactor()\<close> is 0.75
  afterwards. \<open>two_chains\<close> makes two buckets of two entries each.
\<close>

definition twelve_sets :: "(jsstring, nat) operation list" where
  "twelve_sets =
     [Set [97] 1, Set [98] 1, Set [99] 1, Set [100] 1, Set [101] 1, Set [102] 1,
      Set [103] 1, Set [104] 1, Set [105] 1, Set [106] 1, Set [107] 1, Set [108] 1]"

definition two_chains :: "(jsstring, nat) operation list" where
  "two_chains = [Set [97] 1, Set [113] 2, Set [98] 3, Set [114] 4]"


section \<open>The default hash function\<close>

lemma defaultHashFunction_loop_None:
  "defaultHashFunction_loop s n None = None"
  by (induction s) simp_all

lemma defaultHashFunction_loop_bound:
  "0 < n \<Longrightarrow> x < n \<Longrightarrow> \<exists>i<n. defaultHashFunction_loop s n (Some x) = Some i"
  by (induction s arbitrary: x) simp_all

lemma defaultHashFunction_bound:
  "0 < n \<Longrightarrow> \<exists>i<n. defaultHashFunction s n = Some i"
  unfolding defaultHashFunction_def by (rule defaultHashFunction_loop_bound)

text \<open>
  C10. For a bucket count \<open>n \<ge> 1\<close> the default hash of every string is a natural
  number below \<open>n\<close>, and \<open>0\<close> for the empty string; hence in every table with at
  least one bucket the bucket access \<^verbatim>\<open>buckets[hashFn(key, buckets.length)]\<close> that
  \<^verbatim>\<open>set\<close>, \<^verbatim>\<open>get\<close>, \<^verbatim>\<open>has\<close> and \<^verbatim>\<open>remove\<close> perform finds a bucket.
\<close>

theorem defaultHashFunction_in_bounds:
  assumes "1 \<le> n"
  shows "(\<exists>i<n. defaultHashFunction s n = Some i) \<and> defaultHashFunction [] n = Some 0 \<and>
    (length (buckets t) = n \<longrightarrow>
       (\<exists>i<length (buckets t).
          bucket_at t (defaultHashFunction s (length (buckets t))) = Inr i))"
proof -
  from assms have n: "0 < n" by simp
  obtain i where i: "i < n" "defaultHashFunction s n = Some i"
    using defaultHashFunction_bound [OF n] by blast
  have "defaultHashFunction [] n = Some 0"
    by (simp add: defaultHashFunction_def)
  moreover have "length (buckets t) = n \<longrightarrow>
       (\<exists>i<length (buckets t).
          bucket_at t (defaultHashFunction s (length (buckets t))) = Inr i)"
    using i by (auto simp: bucket_at_def)
  ultimately show ?thesis using i by blast
qed

theorem defaultHashFunction_in_bounds_witness:
  "defaultHashFunction [72, 105] 16 = Some 1 \<and>
   bucket_at (HashMap :: (jsstring, nat) HashMap) (defaultHashFunction [72, 105] 16) = Inr 1"
proof -
  have "defaultHashFunction [72, 105] 16 = Some 1"
    by (simp add: defaultHashFunction_def)
  moreover have "length (buckets (HashMap :: (jsstring, nat) HashMap)) = 16"
    by (simp add: HashMap_def resize_def)
  ultimately show ?thesis
    using defaultHashFunction_in_bounds [of 16 "[72, 105]" "HashMap :: (jsstring, nat) HashMap"]
    by (simp add: bucket_at_def)
qed

section \<open>clear\<close>

lemma forEach_clear_ll: "forEach h (clear_ll l) callback r = Some r"
  by (simp add: forEach_def clear_ll_def forEach_loop.simps)

lemma buckets_forEach_clear:
  "buckets_forEach h callback (map clear_ll ls) r = Some r"
  by (induction ls) (simp_all add: forEach_clear_ll)

lemma foldl_nodeCount_clear:
  "foldl (\<lambda>result list. result + nodeCount list) n (map clear_ll ls) = n"
  by (induction ls arbitrary: n) (simp_all add: clear_ll_def)

text \<open>
  C8. After \<^verbatim>\<open>clear()\<close>, in every table state, \<^verbatim>\<open>length()\<close> is 0 and \<^verbatim>\<open>keys()\<close>
  returns the empty array, and the number of buckets is what it was before.
\<close>

theorem clear_empties_and_keeps_buckets:
  "length_hm (clear_hm t) = 0 \<and> keys (clear_hm t) = Some [] \<and>
   length (buckets (clear_hm t)) = length (buckets t)"
  by (simp add: length_hm_def keys_def clear_hm_def foldl_nodeCount_clear buckets_forEach_clear)

section \<open>Lists in the store\<close>

lemma path_bound: "path h p as q \<Longrightarrow> a \<in> set as \<Longrightarrow> a < length h"
  by (induction as arbitrary: p) auto

lemma path_append:
  "path h p (xs @ ys) q \<longleftrightarrow> (\<exists>m. path h p xs m \<and> path h m ys q)"
  by (induction xs arbitrary: p) auto

lemma back_links_append:
  "back_links h p (xs @ ys) \<longleftrightarrow>
     back_links h p xs \<and> back_links h (if xs = [] then p else Some (last xs)) ys"
  by (induction xs arbitrary: p) auto

lemma path_frame:
  "path h p as q \<Longrightarrow> length h \<le> length h' \<Longrightarrow> \<forall>a\<in>set as. next (h' ! a) = next (h ! a) \<Longrightarrow>
   path h' p as q"
  by (induction as arbitrary: p) auto

lemma back_links_frame:
  "back_links h p as \<Longrightarrow> \<forall>a\<in>set as. prev (h' ! a) = prev (h ! a) \<Longrightarrow> back_links h' p as"
  by (induction as arbitrary: p) auto

lemma search_loop_path:
  "path h p as None \<Longrightarrow> search_loop h k p = Some (find (\<lambda>a. key (h ! a) = k) as)"
proof (induction as arbitrary: p)
  case Nil
  then show ?case by (simp add: search_loop.simps)
next
  case (Cons a as)
  then show ?case by (subst search_loop.simps) auto
qed

lemma append_loop_path:
  "path h p as None \<Longrightarrow>
   append_loop h k v p =
     Some (case find (\<lambda>a. key (h ! a) = k) as of
             None \<Rightarrow> (h, None)
           | Some a \<Rightarrow> (h[a := (h ! a)\<lparr>val := v\<rparr>], Some a))"
proof (induction as arbitrary: p)
  case Nil
  then show ?case by (simp add: append_loop.simps)
next
  case (Cons a as)
  then show ?case by (subst append_loop.simps) auto
qed

lemma forEach_loop_path:
  "path h p as None \<Longrightarrow>
   forEach_loop h callback p r = Some (foldl (\<lambda>r a. callback (h ! a) r) r as)"
proof (induction as arbitrary: p r)
  case Nil
  then show ?case by (simp add: forEach_loop.simps)
next
  case (Cons a as)
  then show ?case by (subst forEach_loop.simps) auto
qed

lemma find_key_None:
  "find (\<lambda>a. key (h ! a) = k) as = None \<longleftrightarrow> k \<notin> fst ` set (entries_of h as)"
  by (auto simp: find_None_iff entries_of_def image_iff)

lemma find_key_Some:
  "find (\<lambda>a. key (h ! a) = k) as = Some a \<Longrightarrow> a \<in> set as \<and> key (h ! a) = k"
  by (auto simp: find_Some_iff)

lemma map_of_entries_find:
  "map_of (entries_of h as) k =
     map_option (\<lambda>a. val (h ! a)) (find (\<lambda>a. key (h ! a) = k) as)"
  by (induction as) (auto simp: entries_of_def)


lemma list_inv_frame:
  assumes "list_inv h l as" "length h \<le> length h'" "\<forall>a\<in>set as. h' ! a = h ! a"
  shows "list_inv h' l as" "entries_of h' as = entries_of h as"
proof -
  show e: "entries_of h' as = entries_of h as"
    using assms(3) by (simp add: entries_of_def)
  have "path h' (firstNode l) as None"
    using assms by (auto simp: list_inv_def intro: path_frame)
  moreover have "back_links h' None as"
    using assms by (auto simp: list_inv_def intro: back_links_frame)
  ultimately show "list_inv h' l as"
    using assms(1) e by (simp add: list_inv_def)
qed

lemma append_ll_update:
  assumes inv: "list_inv h l as" and found: "find (\<lambda>a. key (h ! a) = k) as = Some a"
  shows "append_ll h l k v = Some (h[a := (h ! a)\<lparr>val := v\<rparr>], l, a)"
    and "list_inv (h[a := (h ! a)\<lparr>val := v\<rparr>]) l as"
proof -
  define h' where "h' = h[a := (h ! a)\<lparr>val := v\<rparr>]"
  from inv have p: "path h (firstNode l) as None" by (simp add: list_inv_def)
  show "append_ll h l k v = Some (h[a := (h ! a)\<lparr>val := v\<rparr>], l, a)"
    by (simp add: append_ll_def append_loop_path [OF p] found)
  have a: "a < length h"
    using find_key_Some [OF found] path_bound [OF p] by blast
  have same: "key (h' ! b) = key (h ! b)" "next (h' ! b) = next (h ! b)"
      "prev (h' ! b) = prev (h ! b)" for b
    using a by (cases "b = a"; simp add: h'_def)+
  have len: "length h' = length h" by (simp add: h'_def)
  have "path h' (firstNode l) as None"
    by (rule path_frame [OF p]) (simp_all add: len same)
  moreover have "back_links h' None as"
    using inv by (intro back_links_frame [of h None as h']) (simp_all add: list_inv_def same)
  moreover have "map fst (entries_of h' as) = map fst (entries_of h as)"
    by (simp add: entries_of_def same)
  ultimately have "list_inv h' l as"
    using inv by (simp add: list_inv_def)
  then show "list_inv (h[a := (h ! a)\<lparr>val := v\<rparr>]) l as"
    by (simp add: h'_def)
qed

lemma append_ll_new:
  assumes inv: "list_inv h l as" and absent: "find (\<lambda>a. key (h ! a) = k) as = None"
  shows "\<exists>h' l'. append_ll h l k v = Some (h', l', length h) \<and>
     list_inv h' l' (length h # as) \<and> length h' = Suc (length h) \<and>
     key (h' ! length h) = k \<and> val (h' ! length h) = v \<and>
     (\<forall>b<length h. key (h' ! b) = key (h ! b) \<and> val (h' ! b) = val (h ! b) \<and>
        (b \<notin> set as \<longrightarrow> h' ! b = h ! b))"
proof -
  define h2 where "h2 = h @ [(LinkedListNode k v)\<lparr>next := firstNode l\<rparr>]"
  define h3 where
    "h3 = (case firstNode l of Some f \<Rightarrow> h2[f := (h2 ! f)\<lparr>prev := Some (length h)\<rparr>] | None \<Rightarrow> h2)"
  define l3 where
    "l3 = (if lastNode l = None then l\<lparr>firstNode := Some (length h), lastNode := Some (length h)\<rparr>
           else l\<lparr>firstNode := Some (length h)\<rparr>)\<lparr>nodeCount := nodeCount l + 1\<rparr>"
  from inv have p: "path h (firstNode l) as None" and b: "back_links h None as"
    and d: "distinct as" and dk: "distinct (map fst (entries_of h as))"
    and c: "nodeCount l = length as"
    by (simp_all add: list_inv_def)
  have bound: "\<forall>b\<in>set as. b < length h" using p path_bound by blast
  have run: "append_ll h l k v = Some (h3, l3, length h)"
    unfolding h3_def h2_def l3_def
    by (simp add: append_ll_def append_loop_path [OF p] absent Let_def)
  have len: "length h3 = Suc (length h)"
    by (simp add: h3_def h2_def split: option.split)
  have first: "firstNode l = (case as of [] \<Rightarrow> None | f # _ \<Rightarrow> Some f)"
    using p by (cases as) auto
  have new: "key (h3 ! length h) = k" "val (h3 ! length h) = v"
    "next (h3 ! length h) = firstNode l" "prev (h3 ! length h) = None"
    using bound by (auto simp: h3_def h2_def first LinkedListNode_def nth_append split: list.split)
  have old: "key (h3 ! b) = key (h ! b)" "val (h3 ! b) = val (h ! b)"
      "next (h3 ! b) = next (h ! b)" "Some b \<noteq> firstNode l \<Longrightarrow> h3 ! b = h ! b"
    if "b < length h" for b
    using that by (auto simp: h3_def h2_def nth_append nth_list_update split: option.split)
  have p3: "path h3 (firstNode l) as None"
  proof (rule path_frame [OF p])
    show "length h \<le> length h3" using len by simp
    show "\<forall>a\<in>set as. next (h3 ! a) = next (h ! a)" using old(3) bound by blast
  qed
  have b3: "back_links h3 (Some (length h)) as"
  proof (cases as)
    case Nil
    then show ?thesis by simp
  next
    case (Cons f as')
    with p have f: "firstNode l = Some f" "f < length h" by auto
    from Cons d have nf: "\<forall>a\<in>set as'. a \<noteq> f" by auto
    have "prev (h3 ! f) = Some (length h)"
      using f by (simp add: h3_def h2_def nth_append)
    moreover have "back_links h3 (Some f) as'"
    proof (rule back_links_frame [of h])
      show "back_links h (Some f) as'" using b Cons by simp
      show "\<forall>a\<in>set as'. prev (h3 ! a) = prev (h ! a)"
      proof
        fix a assume a: "a \<in> set as'"
        then have "a < length h" "Some a \<noteq> firstNode l" using bound Cons nf f by auto
        then show "prev (h3 ! a) = prev (h ! a)" using old(4) by simp
      qed
    qed
    ultimately show ?thesis using Cons by simp
  qed
  have keys3: "map fst (entries_of h3 as) = map fst (entries_of h as)"
    using old(1) bound by (simp add: entries_of_def)
  have fresh: "length h \<notin> set as" using bound by auto
  have knew: "k \<notin> set (map fst (entries_of h as))"
    using absent by (simp add: find_key_None)
  have "path h3 (Some (length h)) (length h # as) None"
    using p3 len new by simp
  moreover have "back_links h3 None (length h # as)"
    using b3 new by simp
  moreover have "distinct (map fst (entries_of h3 (length h # as)))"
  proof -
    have "map fst (entries_of h3 (length h # as)) = k # map fst (entries_of h3 as)"
      using new by (simp add: entries_of_def)
    then show ?thesis using keys3 dk knew by simp
  qed
  ultimately have "list_inv h3 l3 (length h # as)"
    using c d fresh by (simp add: list_inv_def l3_def)
  moreover have "\<forall>b<length h. key (h3 ! b) = key (h ! b) \<and> val (h3 ! b) = val (h ! b) \<and>
        (b \<notin> set as \<longrightarrow> h3 ! b = h ! b)"
  proof (intro allI impI conjI)
    fix b assume b: "b < length h"
    show "key (h3 ! b) = key (h ! b)" "val (h3 ! b) = val (h ! b)" using old b by simp_all
    assume "b \<notin> set as"
    then have "Some b \<noteq> firstNode l" using first by (cases as) auto
    then show "h3 ! b = h ! b" using old(4) b by simp
  qed
  ultimately show ?thesis using run len new(1,2) by (intro exI [of _ h3] exI [of _ l3]) simp
qed


lemma path_unlink:
  assumes "path h p0 (xs @ a # ys) None" "distinct (xs @ a # ys)" "length h' = length h"
    and "\<And>b. b \<in> set xs \<union> set ys \<Longrightarrow>
           next (h' ! b) = (if xs \<noteq> [] \<and> b = last xs then next (h ! a) else next (h ! b))"
  shows "path h' (if xs = [] then next (h ! a) else p0) (xs @ ys) None"
  using assms
proof (induction xs arbitrary: p0)
  case Nil
  then show ?case by (auto intro: path_frame)
next
  case (Cons x xs)
  show ?case
  proof (cases "xs = []")
    case True
    have "path h' (next (h ! a)) ys None"
      using Cons.prems True by (auto intro: path_frame)
    moreover have "next (h' ! x) = next (h ! a)"
      using Cons.prems(4) [of x] True by simp
    ultimately show ?thesis using Cons.prems True by simp
  next
    case False
    have x: "x \<noteq> last xs" using Cons.prems(2) False by auto
    have nx: "next (h' ! x) = next (h ! x)"
      using Cons.prems(4) [of x] x False by simp
    have "path h' (if xs = [] then next (h ! a) else next (h ! x)) (xs @ ys) None"
    proof (rule Cons.IH)
      show "path h (next (h ! x)) (xs @ a # ys) None" using Cons.prems(1) by simp
      show "distinct (xs @ a # ys)" using Cons.prems(2) by simp
      show "length h' = length h" by fact
      show "next (h' ! b) = (if xs \<noteq> [] \<and> b = last xs then next (h ! a) else next (h ! b))"
        if "b \<in> set xs \<union> set ys" for b
        using Cons.prems(4) [of b] that False by auto
    qed
    then show ?thesis using Cons.prems(1,3) False nx by simp
  qed
qed

lemma back_links_unlink:
  assumes "back_links h q (xs @ a # ys)" "distinct (xs @ a # ys)"
    and "\<And>b. b \<in> set xs \<union> set ys \<Longrightarrow>
           prev (h' ! b) = (if ys \<noteq> [] \<and> b = hd ys then prev (h ! a) else prev (h ! b))"
  shows "back_links h' q (xs @ ys)"
  using assms
proof (induction xs arbitrary: q)
  case Nil
  show ?case
  proof (cases ys)
    case Nil
    then show ?thesis by simp
  next
    case (Cons n ys')
    have "prev (h' ! n) = q" using Nil.prems(1) Nil.prems(3) [of n] Cons by simp
    moreover have "back_links h' (Some n) ys'"
    proof (rule back_links_frame [of h])
      show "back_links h (Some n) ys'" using Nil.prems(1) Cons by simp
      show "\<forall>b\<in>set ys'. prev (h' ! b) = prev (h ! b)"
      proof
        fix b assume "b \<in> set ys'"
        then show "prev (h' ! b) = prev (h ! b)"
          using Nil.prems(2) Nil.prems(3) [of b] Cons by auto
      qed
    qed
    ultimately show ?thesis using Cons by simp
  qed
next
  case (Cons x xs)
  have "x \<notin> set ys" using Cons.prems(2) by auto
  then have "\<not> (ys \<noteq> [] \<and> x = hd ys)" by (cases ys) auto
  then have "prev (h' ! x) = prev (h ! x)" using Cons.prems(3) [of x] by auto
  then have "prev (h' ! x) = q" using Cons.prems(1) by simp
  moreover have "back_links h' (Some x) (xs @ ys)"
  proof (rule Cons.IH)
    show "back_links h (Some x) (xs @ a # ys)" using Cons.prems(1) by simp
    show "distinct (xs @ a # ys)" using Cons.prems(2) by simp
    show "prev (h' ! b) = (if ys \<noteq> [] \<and> b = hd ys then prev (h ! a) else prev (h ! b))"
      if "b \<in> set xs \<union> set ys" for b
      using Cons.prems(3) [of b] that by auto
  qed
  ultimately show ?case by simp
qed

lemma remove_ll_only:
  assumes "nodeCount l \<noteq> 0" "prev (h ! a) = None" "next (h ! a) = None"
  shows "remove_ll h l a = (Inl TypeError, h, l\<lparr>nodeCount := nodeCount l - 1, firstNode := None\<rparr>)"
  using assms by (simp add: remove_ll_def assign_prev_def)

lemma remove_ll_first:
  assumes "nodeCount l \<noteq> 0" "prev (h ! a) = None" "next (h ! a) = Some n" "n \<noteq> a" "n < length h"
  shows "remove_ll h l a =
    (Inr (), h[n := (h ! n)\<lparr>prev := None\<rparr>], l\<lparr>nodeCount := nodeCount l - 1, firstNode := Some n\<rparr>)"
  using assms by (simp add: remove_ll_def assign_prev_def)

lemma remove_ll_last:
  assumes "nodeCount l \<noteq> 0" "prev (h ! a) = Some p" "next (h ! a) = None" "p \<noteq> a" "p < length h"
  shows "remove_ll h l a =
    (Inr (), h[p := (h ! p)\<lparr>next := None\<rparr>], l\<lparr>nodeCount := nodeCount l - 1, lastNode := Some p\<rparr>)"
  using assms by (simp add: remove_ll_def assign_next_def)

lemma remove_ll_middle:
  assumes "nodeCount l \<noteq> 0" "prev (h ! a) = Some p" "next (h ! a) = Some n"
    "p \<noteq> a" "n \<noteq> a" "p \<noteq> n" "p < length h" "n < length h"
  shows "remove_ll h l a =
    (Inr (), h[p := (h ! p)\<lparr>next := Some n\<rparr>, n := (h ! n)\<lparr>prev := Some p\<rparr>],
     l\<lparr>nodeCount := nodeCount l - 1\<rparr>)"
  using assms by (simp add: remove_ll_def assign_next_def assign_prev_def)


lemma remove_ll_spec:
  assumes inv: "list_inv h l as" and mem: "a \<in> set as"
  shows "\<exists>r h' l'. remove_ll h l a = (r, h', l') \<and> (r = Inl TypeError \<longleftrightarrow> as = [a]) \<and>
     list_inv h' l' (remove1 a as) \<and> length h' = length h \<and>
     (\<forall>b<length h. key (h' ! b) = key (h ! b) \<and> val (h' ! b) = val (h ! b) \<and>
        (b \<notin> set as \<longrightarrow> h' ! b = h ! b))"
proof -
  from inv have p: "path h (firstNode l) as None" and bl: "back_links h None as"
    and d: "distinct as" and dk: "distinct (map fst (entries_of h as))"
    and c: "nodeCount l = length as"
    by (simp_all add: list_inv_def)
  from mem obtain xs ys where as: "as = xs @ a # ys"
    by (auto simp: in_set_conv_decomp)
  have rm: "remove1 a as = xs @ ys"
    using d as by (simp add: remove1_append)
  have bound: "\<And>b. b \<in> set as \<Longrightarrow> b < length h" using p path_bound by blast
  have cnt: "nodeCount l \<noteq> 0" using c as by simp
  have pa: "prev (h ! a) = (if xs = [] then None else Some (last xs))"
    using bl unfolding as back_links_append by simp
  obtain m where m: "path h (firstNode l) xs m" "path h m (a # ys) None"
    using p unfolding as path_append by blast
  have na: "next (h ! a) = (case ys of [] \<Rightarrow> None | n # _ \<Rightarrow> Some n)"
    using m(2) by (cases ys) auto
  have first: "xs = [] \<Longrightarrow> firstNode l = Some a" using m by simp
  have dk': "distinct (map (\<lambda>b. key (h ! b)) (xs @ ys))"
    using dk unfolding as by (simp add: entries_of_def comp_def)
  have goal: "\<exists>r h' l'. remove_ll h l a = (r, h', l') \<and> (r = Inl TypeError \<longleftrightarrow> as = [a]) \<and>
     list_inv h' l' (remove1 a as) \<and> length h' = length h \<and>
     (\<forall>b<length h. key (h' ! b) = key (h ! b) \<and> val (h' ! b) = val (h ! b) \<and>
        (b \<notin> set as \<longrightarrow> h' ! b = h ! b))"
    if run: "remove_ll h l a = (r, h', l')" and r: "r = Inl TypeError \<longleftrightarrow> as = [a]"
      and len: "length h' = length h"
      and l': "firstNode l' = (if xs = [] then next (h ! a) else firstNode l)"
        "nodeCount l' = nodeCount l - 1"
      and kv: "\<And>b. key (h' ! b) = key (h ! b) \<and> val (h' ! b) = val (h ! b)"
      and out: "\<And>b. b \<notin> set as \<Longrightarrow> h' ! b = h ! b"
      and nx: "\<And>b. b \<in> set xs \<union> set ys \<Longrightarrow>
           next (h' ! b) = (if xs \<noteq> [] \<and> b = last xs then next (h ! a) else next (h ! b))"
      and pv: "\<And>b. b \<in> set xs \<union> set ys \<Longrightarrow>
           prev (h' ! b) = (if ys \<noteq> [] \<and> b = hd ys then prev (h ! a) else prev (h ! b))"
    for r h' l'
  proof -
    have "path h' (if xs = [] then next (h ! a) else firstNode l) (xs @ ys) None"
      using p d len nx unfolding as by (rule path_unlink)
    moreover have "back_links h' None (xs @ ys)"
      using bl d pv unfolding as by (rule back_links_unlink)
    moreover have "map fst (entries_of h' (xs @ ys)) = map (\<lambda>b. key (h ! b)) (xs @ ys)"
      by (simp add: entries_of_def kv comp_def)
    ultimately have "list_inv h' l' (xs @ ys)"
      using l' dk' d c unfolding as by (simp add: list_inv_def)
    then show ?thesis using run r len kv out unfolding rm by blast
  qed
  show ?thesis
  proof (cases xs rule: rev_cases)
    case Nil
    note xs = Nil
    show ?thesis
    proof (cases ys)
      case Nil
      have "remove_ll h l a =
          (Inl TypeError, h, l\<lparr>nodeCount := nodeCount l - 1, firstNode := None\<rparr>)"
        using cnt pa na xs Nil by (intro remove_ll_only) simp_all
      then show ?thesis
        by (rule goal) (simp_all add: xs Nil as na)
    next
      case (Cons n ys')
      have n: "n \<noteq> a" "n < length h" using d as Cons bound [of n] by auto
      have "remove_ll h l a = (Inr (), h[n := (h ! n)\<lparr>prev := None\<rparr>],
          l\<lparr>nodeCount := nodeCount l - 1, firstNode := Some n\<rparr>)"
        using cnt pa na xs Cons n by (intro remove_ll_first) simp_all
      then show ?thesis
      proof (rule goal)
        show "(Inr () :: error + unit) = Inl TypeError \<longleftrightarrow> as = [a]"
          using as Cons by simp
        show "\<And>b. b \<notin> set as \<Longrightarrow> h[n := (h ! n)\<lparr>prev := None\<rparr>] ! b = h ! b"
          using as Cons by (auto simp: nth_list_update)
        show "\<And>b. key (h[n := (h ! n)\<lparr>prev := None\<rparr>] ! b) = key (h ! b) \<and>
            val (h[n := (h ! n)\<lparr>prev := None\<rparr>] ! b) = val (h ! b)"
          using n by (auto simp: nth_list_update)
        show "\<And>b. b \<in> set xs \<union> set ys \<Longrightarrow> prev (h[n := (h ! n)\<lparr>prev := None\<rparr>] ! b) =
            (if ys \<noteq> [] \<and> b = hd ys then prev (h ! a) else prev (h ! b))"
          using n pa xs Cons by (auto simp: nth_list_update)
        show "\<And>b. b \<in> set xs \<union> set ys \<Longrightarrow> next (h[n := (h ! n)\<lparr>prev := None\<rparr>] ! b) =
            (if xs \<noteq> [] \<and> b = last xs then next (h ! a) else next (h ! b))"
          using n xs by (auto simp: nth_list_update)
      qed (simp_all add: xs na Cons)
    qed
  next
    case (snoc xs' q)
    note xs = snoc
    have q: "q \<noteq> a" "q < length h" using d as xs bound [of q] by auto
    show ?thesis
    proof (cases ys)
      case Nil
      have "remove_ll h l a = (Inr (), h[q := (h ! q)\<lparr>next := None\<rparr>],
          l\<lparr>nodeCount := nodeCount l - 1, lastNode := Some q\<rparr>)"
        using cnt pa na xs Nil q by (intro remove_ll_last) simp_all
      then show ?thesis
      proof (rule goal)
        show "(Inr () :: error + unit) = Inl TypeError \<longleftrightarrow> as = [a]"
          using as xs by simp
        show "\<And>b. b \<notin> set as \<Longrightarrow> h[q := (h ! q)\<lparr>next := None\<rparr>] ! b = h ! b"
          using as xs by (auto simp: nth_list_update)
        show "\<And>b. key (h[q := (h ! q)\<lparr>next := None\<rparr>] ! b) = key (h ! b) \<and>
            val (h[q := (h ! q)\<lparr>next := None\<rparr>] ! b) = val (h ! b)"
          using q by (auto simp: nth_list_update)
        show "\<And>b. b \<in> set xs \<union> set ys \<Longrightarrow> prev (h[q := (h ! q)\<lparr>next := None\<rparr>] ! b) =
            (if ys \<noteq> [] \<and> b = hd ys then prev (h ! a) else prev (h ! b))"
          using q Nil by (auto simp: nth_list_update)
        show "\<And>b. b \<in> set xs \<union> set ys \<Longrightarrow> next (h[q := (h ! q)\<lparr>next := None\<rparr>] ! b) =
            (if xs \<noteq> [] \<and> b = last xs then next (h ! a) else next (h ! b))"
          using q xs na Nil by (auto simp: nth_list_update)
      qed (simp_all add: xs)
    next
      case (Cons n ys')
      have n: "n \<noteq> a" "n < length h" "q \<noteq> n" using d as xs Cons bound [of n] by auto
      have "remove_ll h l a =
          (Inr (), h[q := (h ! q)\<lparr>next := Some n\<rparr>, n := (h ! n)\<lparr>prev := Some q\<rparr>],
           l\<lparr>nodeCount := nodeCount l - 1\<rparr>)"
        using cnt pa na xs Cons q n by (intro remove_ll_middle) simp_all
      then show ?thesis
      proof (rule goal)
        let ?h = "h[q := (h ! q)\<lparr>next := Some n\<rparr>, n := (h ! n)\<lparr>prev := Some q\<rparr>]"
        show "(Inr () :: error + unit) = Inl TypeError \<longleftrightarrow> as = [a]"
          using as xs by simp
        show "\<And>b. b \<notin> set as \<Longrightarrow> ?h ! b = h ! b"
          using as xs Cons by (auto simp: nth_list_update)
        show "\<And>b. key (?h ! b) = key (h ! b) \<and> val (?h ! b) = val (h ! b)"
          using q n by (auto simp: nth_list_update)
        show "\<And>b. b \<in> set xs \<union> set ys \<Longrightarrow> prev (?h ! b) =
            (if ys \<noteq> [] \<and> b = hd ys then prev (h ! a) else prev (h ! b))"
          using q n Cons pa xs by (auto simp: nth_list_update)
        show "\<And>b. b \<in> set xs \<union> set ys \<Longrightarrow> next (?h ! b) =
            (if xs \<noteq> [] \<and> b = last xs then next (h ! a) else next (h ! b))"
          using q n xs na Cons by (auto simp: nth_list_update)
      qed (simp_all add: xs)
    qed
  qed
qed

section \<open>The table invariant\<close>

lemma set_hm_unfold:
  "set_hm hashFn t k v =
     (case resizeBucketsIfNeeded (set_hm hashFn) t of
        None \<Rightarrow> None
      | Some (Inl e, t1) \<Rightarrow> Some (Inl e, t1)
      | Some (Inr _, t1) \<Rightarrow> put hashFn t1 k v)"
  by (subst set_hm.simps) (simp add: put_def split: option.split sum.split prod.split)

lemma list_inv_bound: "list_inv h l as \<Longrightarrow> a \<in> set as \<Longrightarrow> a < length h"
  by (auto simp: list_inv_def dest: path_bound)

lemma valid_hashD: "valid_hash hashFn \<Longrightarrow> 0 < n \<Longrightarrow> \<exists>i<n. hashFn k n = Some i"
  unfolding valid_hash_def by blast

lemma table_inv_length: "table_inv hashFn t ass \<Longrightarrow> length ass = length (buckets t)"
  by (simp add: table_inv_def)

lemma table_inv_list:
  "table_inv hashFn t ass \<Longrightarrow> i < length ass \<Longrightarrow> list_inv (heap t) (buckets t ! i) (ass ! i)"
  unfolding table_inv_def by blast

lemma table_inv_hash:
  "table_inv hashFn t ass \<Longrightarrow> i < length ass \<Longrightarrow> a \<in> set (ass ! i) \<Longrightarrow>
   hashFn (key (heap t ! a)) (length ass) = Some i"
  by (auto simp: table_inv_def)

lemma table_inv_disjoint:
  "table_inv hashFn t ass \<Longrightarrow> i < length ass \<Longrightarrow> j < length ass \<Longrightarrow> i \<noteq> j \<Longrightarrow>
   set (ass ! i) \<inter> set (ass ! j) = {}"
  unfolding table_inv_def by blast

lemma foldl_nodeCount:
  "foldl (\<lambda>result list. result + nodeCount list) n ls = n + sum_list (map nodeCount ls)"
  by (induction ls arbitrary: n) simp_all

lemma length_hm_inv:
  assumes "table_inv hashFn t ass"
  shows "length_hm t = sum_list (map length ass)"
proof -
  have "map nodeCount (buckets t) = map length ass"
    using assms by (intro nth_equalityI) (auto simp: table_inv_def list_inv_def)
  then show ?thesis by (simp add: length_hm_def foldl_nodeCount)
qed

lemma get_has_inv:
  assumes "table_inv hashFn t ass" "hashFn k (length (buckets t)) = Some i" "i < length (buckets t)"
  shows "get hashFn t k = Some (Inr (map_of (entries_of (heap t) (ass ! i)) k))"
    and "has hashFn t k = Some (Inr (map_of (entries_of (heap t) (ass ! i)) k \<noteq> None))"
proof -
  have "list_inv (heap t) (buckets t ! i) (ass ! i)"
    using assms by (simp add: table_inv_def)
  then have p: "path (heap t) (firstNode (buckets t ! i)) (ass ! i) None"
    by (simp add: list_inv_def)
  show "get hashFn t k = Some (Inr (map_of (entries_of (heap t) (ass ! i)) k))"
    using assms(2,3)
    by (simp add: get_def bucket_at_def search_def search_loop_path [OF p] map_of_entries_find
        split: option.split)
  show "has hashFn t k = Some (Inr (map_of (entries_of (heap t) (ass ! i)) k \<noteq> None))"
    using assms(2,3)
    by (simp add: has_def bucket_at_def search_def search_loop_path [OF p] map_of_entries_find)
qed

lemma table_inv_update_bucket:
  assumes inv: "table_inv hashFn t ass" and i: "i < length ass"
    and l': "list_inv H l' as'"
    and len: "length (heap t) \<le> length H"
    and out: "\<And>b. b < length (heap t) \<Longrightarrow> b \<notin> set (ass ! i) \<Longrightarrow> H ! b = heap t ! b"
    and sub: "set as' \<subseteq> set (ass ! i) \<union> {b. length (heap t) \<le> b}"
    and hash: "\<And>a. a \<in> set as' \<Longrightarrow> hashFn (key (H ! a)) (length ass) = Some i"
  shows "table_inv hashFn (t\<lparr>heap := H, buckets := (buckets t)[i := l']\<rparr>) (ass[i := as'])"
    and "\<And>j. j < length ass \<Longrightarrow> j \<noteq> i \<Longrightarrow> entries_of H (ass ! j) = entries_of (heap t) (ass ! j)"
proof -
  have other: "\<forall>a\<in>set (ass ! j). a < length (heap t) \<and> H ! a = heap t ! a"
    if j: "j < length ass" "j \<noteq> i" for j
  proof
    fix a assume a: "a \<in> set (ass ! j)"
    have "list_inv (heap t) (buckets t ! j) (ass ! j)" using inv j by (simp add: table_inv_def)
    then have b: "a < length (heap t)" using a by (rule list_inv_bound)
    have "set (ass ! j) \<inter> set (ass ! i) = {}" using inv i j by (simp add: table_inv_def)
    then have "a \<notin> set (ass ! i)" using a by auto
    then show "a < length (heap t) \<and> H ! a = heap t ! a" using b out by simp
  qed
  have frame: "list_inv H (buckets t ! j) (ass ! j) \<and> entries_of H (ass ! j) = entries_of (heap t) (ass ! j)"
    if j: "j < length ass" "j \<noteq> i" for j
  proof -
    have "list_inv (heap t) (buckets t ! j) (ass ! j)" using inv j by (simp add: table_inv_def)
    then show ?thesis using list_inv_frame [of "heap t" "buckets t ! j" "ass ! j" H] len other [OF j]
      by simp
  qed
  show "entries_of H (ass ! j) = entries_of (heap t) (ass ! j)" if "j < length ass" "j \<noteq> i" for j
    using frame that by simp
  have n: "length ass = length (buckets t)" using inv by (simp add: table_inv_def)
  show "table_inv hashFn (t\<lparr>heap := H, buckets := (buckets t)[i := l']\<rparr>) (ass[i := as'])"
    unfolding table_inv_def
  proof (intro conjI allI impI)
    show "length (ass[i := as']) = length (buckets (t\<lparr>heap := H, buckets := (buckets t)[i := l']\<rparr>))"
      using n by simp
  next
    fix j assume j: "j < length (ass[i := as'])"
    show "list_inv (heap (t\<lparr>heap := H, buckets := (buckets t)[i := l']\<rparr>))
        (buckets (t\<lparr>heap := H, buckets := (buckets t)[i := l']\<rparr>) ! j) (ass[i := as'] ! j)"
      using j i n l' frame [of j] by (cases "j = i") simp_all
    show "\<forall>a\<in>set (ass[i := as'] ! j).
        hashFn (key (heap (t\<lparr>heap := H, buckets := (buckets t)[i := l']\<rparr>) ! a))
          (length (ass[i := as'])) = Some j"
    proof (cases "j = i")
      case True
      then show ?thesis using i hash by simp
    next
      case False
      have "\<forall>a\<in>set (ass ! j). hashFn (key (heap t ! a)) (length ass) = Some j"
        using table_inv_hash [OF inv] j by simp
      then show ?thesis using False j other [of j] by simp
    qed
  next
    fix j j' assume j: "j < length (ass[i := as'])" "j' < length (ass[i := as'])" "j \<noteq> j'"
    have old: "set (ass ! j) \<inter> set (ass ! j') = {}"
      using table_inv_disjoint [OF inv] j by simp
    have sep: "set as' \<inter> set (ass ! m) = {}" if m: "m < length ass" "m \<noteq> i" for m
    proof -
      have "set (ass ! i) \<inter> set (ass ! m) = {}" using inv i m by (simp add: table_inv_def)
      moreover have "\<forall>a\<in>set (ass ! m). a < length (heap t)" using other [of m] m by simp
      ultimately show ?thesis using sub by fastforce
    qed
    show "set (ass[i := as'] ! j) \<inter> set (ass[i := as'] ! j') = {}"
    proof (cases "j = i")
      case True
      then show ?thesis using j i sep [of j'] by simp
    next
      case False
      show ?thesis
      proof (cases "j' = i")
        case True
        then show ?thesis using j i False sep [of j] by (simp add: Int_commute)
      next
        case False
        then show ?thesis using \<open>j \<noteq> i\<close> old by simp
      qed
    qed
  qed
qed


lemma sum_list_map_update:
  fixes f :: "'a \<Rightarrow> nat"
  shows "i < length xs \<Longrightarrow> sum_list (map f (xs[i := y])) + f (xs ! i) = sum_list (map f xs) + f y"
proof (induction xs arbitrary: i)
  case Nil
  then show ?case by simp
next
  case (Cons x xs)
  then show ?case by (cases i) (simp_all add: add.assoc)
qed

lemma entries_of_Cons:
  "entries_of h (a # as) = (key (h ! a), val (h ! a)) # entries_of h as"
  by (simp add: entries_of_def)

lemma entries_of_val_update:
  assumes "a \<in> set as" "a < length h" "key (h ! a) = k" "distinct (map fst (entries_of h as))"
  shows "map_of (entries_of (h[a := (h ! a)\<lparr>val := v\<rparr>]) as) k' =
    (if k' = k then Some v else map_of (entries_of h as) k')"
  using assms(1,4)
proof (induction as)
  case Nil
  then show ?case by simp
next
  case (Cons b as)
  define h' where "h' = h[a := (h ! a)\<lparr>val := v\<rparr>]"
  have ha: "key (h' ! a) = k" "val (h' ! a) = v"
    using assms(2,3) by (simp_all add: h'_def)
  have hb: "h' ! x = h ! x" if "x \<noteq> a" for x
    using that by (simp add: h'_def)
  have dk: "distinct (map fst (entries_of h as))" "key (h ! b) \<notin> fst ` set (entries_of h as)"
    using Cons.prems(2) by (simp_all add: entries_of_Cons)
  show ?case unfolding h'_def [symmetric]
  proof (cases "b = a")
    case True
    then have "a \<notin> set as"
      using dk(2) assms(3) by (auto simp: entries_of_def image_iff)
    then have "\<forall>x\<in>set as. h' ! x = h ! x" using hb by metis
    then have "entries_of h' as = entries_of h as" by (simp add: entries_of_def)
    then show "map_of (entries_of h' (b # as)) k' =
        (if k' = k then Some v else map_of (entries_of h (b # as)) k')"
      using True ha assms(3) by (simp add: entries_of_Cons)
  next
    case False
    then have a: "a \<in> set as" using Cons.prems(1) by simp
    have IH: "map_of (entries_of h' as) k' = (if k' = k then Some v else map_of (entries_of h as) k')"
      using Cons.IH [OF a dk(1)] by (simp add: h'_def)
    have "key (h ! b) \<noteq> k"
      using dk(2) a assms(3) by (auto simp: entries_of_def image_iff)
    then show "map_of (entries_of h' (b # as)) k' =
        (if k' = k then Some v else map_of (entries_of h (b # as)) k')"
      using IH hb [OF False] by (cases "k' = k") (simp_all add: entries_of_Cons)
  qed
qed

lemma put_spec:
  assumes inv: "table_inv hashFn t ass" and vh: "valid_hash hashFn"
    and n: "0 < length (buckets t)"
  shows "\<exists>t' ass'. put hashFn t k v = Some (Inr (), t') \<and> table_inv hashFn t' ass' \<and>
     length (buckets t') = length (buckets t) \<and>
     (\<forall>k'. get hashFn t' k' = (if k' = k then Some (Inr (Some v)) else get hashFn t k')) \<and>
     length_hm t' = (if get hashFn t k = Some (Inr None) then Suc (length_hm t) else length_hm t) \<and>
     (get hashFn t k = Some (Inr (Some v)) \<longrightarrow> t' = t)"
proof -
  define H where "H = heap t"
  define bs where "bs = buckets t"
  have la: "length ass = length bs" using inv by (simp add: table_inv_length bs_def)
  obtain i where i: "i < length bs" "hashFn k (length bs) = Some i"
    using valid_hashD [OF vh n, of k] unfolding bs_def by blast
  define as where "as = ass ! i"
  define l where "l = bs ! i"
  have li: "list_inv H l as"
    using table_inv_list [OF inv, of i] i la by (simp add: H_def l_def as_def bs_def)
  have bound: "\<And>b. b \<in> set as \<Longrightarrow> b < length H" using li list_inv_bound by blast
  have getk: "get hashFn t k = Some (Inr (map_of (entries_of H as) k))"
    using get_has_inv(1) [OF inv, of k i] i by (simp add: bs_def H_def as_def)
  have reduce: "\<exists>t' ass'. put hashFn t k v = Some (Inr (), t') \<and> table_inv hashFn t' ass' \<and>
     length (buckets t') = length (buckets t) \<and>
     (\<forall>k'. get hashFn t' k' = (if k' = k then Some (Inr (Some v)) else get hashFn t k')) \<and>
     length_hm t' = (if get hashFn t k = Some (Inr None) then Suc (length_hm t) else length_hm t) \<and>
     (get hashFn t k = Some (Inr (Some v)) \<longrightarrow> t' = t)"
    if run: "append_ll H l k v = Some (H', l', r)"
      and l': "list_inv H' l' as'"
      and len: "length H \<le> length H'"
      and out: "\<And>b. b < length H \<Longrightarrow> b \<notin> set as \<Longrightarrow> H' ! b = H ! b"
      and sub: "set as' \<subseteq> set as \<union> {b. length H \<le> b}"
      and keys: "\<And>a. a \<in> set as' \<Longrightarrow> key (H' ! a) = k \<or> (a \<in> set as \<and> key (H' ! a) = key (H ! a))"
      and ents: "\<And>k'. map_of (entries_of H' as') k' =
                  (if k' = k then Some v else map_of (entries_of H as) k')"
      and cnt: "length as' = (if map_of (entries_of H as) k = None then Suc (length as) else length as)"
      and same: "map_of (entries_of H as) k = Some v \<Longrightarrow> H' = H \<and> l' = l"
    for H' l' r as'
  proof -
    define t' where "t' = t\<lparr>heap := H', buckets := bs[i := l']\<rparr>"
    have put: "put hashFn t k v = Some (Inr (), t')"
      using i run by (simp add: put_def bucket_at_def t'_def bs_def H_def l_def)
    have hash: "hashFn (key (H' ! a)) (length ass) = Some i" if "a \<in> set as'" for a
      using keys [OF that] i la table_inv_hash [OF inv, of i a] by (auto simp: as_def H_def)
    have upd: "table_inv hashFn t' (ass[i := as'])"
      and other: "\<And>j. j < length ass \<Longrightarrow> j \<noteq> i \<Longrightarrow> entries_of H' (ass ! j) = entries_of H (ass ! j)"
      using table_inv_update_bucket [OF inv, of i H' l' as'] i la l' len out sub hash
      by (simp_all add: t'_def bs_def H_def as_def)
    have gets: "get hashFn t' k' = (if k' = k then Some (Inr (Some v)) else get hashFn t k')" for k'
    proof -
      obtain j where j: "j < length bs" "hashFn k' (length bs) = Some j"
        using valid_hashD [OF vh n, of k'] unfolding bs_def by blast
      have g': "get hashFn t' k' = Some (Inr (map_of (entries_of H' (ass[i := as'] ! j)) k'))"
        using get_has_inv(1) [OF upd, of k' j] j by (simp add: t'_def)
      have g: "get hashFn t k' = Some (Inr (map_of (entries_of H (ass ! j)) k'))"
        using get_has_inv(1) [OF inv, of k' j] j by (simp add: bs_def H_def)
      show ?thesis
      proof (cases "j = i")
        case True
        then show ?thesis using g g' ents [of k'] i la by (simp add: as_def)
      next
        case False
        then have "k' \<noteq> k" using i j by auto
        then show ?thesis using g g' other [of j] False j la by simp
      qed
    qed
    have "length_hm t' + length as = length_hm t + length as'"
      using length_hm_inv [OF upd] length_hm_inv [OF inv]
        sum_list_map_update [of i ass length as'] i la by (simp add: as_def)
    then have len_hm: "length_hm t' =
        (if get hashFn t k = Some (Inr None) then Suc (length_hm t) else length_hm t)"
      using cnt getk by (simp split: if_splits)
    have "t' = t" if "get hashFn t k = Some (Inr (Some v))"
    proof -
      have "H' = H \<and> l' = l" using that getk same by simp
      then show ?thesis by (simp add: t'_def H_def l_def bs_def)
    qed
    then show ?thesis using put upd gets len_hm by (intro exI [of _ t'] exI [of _ "ass[i := as']"]) (simp add: t'_def bs_def)
  qed
  show ?thesis
  proof (cases "find (\<lambda>a. key (H ! a) = k) as")
    case None
    then obtain H' l' where new: "append_ll H l k v = Some (H', l', length H)"
      "list_inv H' l' (length H # as)" "length H' = Suc (length H)"
      "key (H' ! length H) = k" "val (H' ! length H) = v"
      "\<forall>b<length H. key (H' ! b) = key (H ! b) \<and> val (H' ! b) = val (H ! b) \<and>
        (b \<notin> set as \<longrightarrow> H' ! b = H ! b)"
      using append_ll_new [OF li, of k v] by blast
    have absent: "map_of (entries_of H as) k = None"
      using None by (simp add: map_of_entries_find)
    have e: "entries_of H' as = entries_of H as"
      using new(6) bound by (simp add: entries_of_def)
    show ?thesis using new(1,2)
    proof (rule reduce)
      show "length H \<le> length H'" using new(3) by simp
      show "\<And>b. b < length H \<Longrightarrow> b \<notin> set as \<Longrightarrow> H' ! b = H ! b" using new(6) by simp
      show "set (length H # as) \<subseteq> set as \<union> {b. length H \<le> b}" by auto
      show "\<And>a. a \<in> set (length H # as) \<Longrightarrow>
          key (H' ! a) = k \<or> (a \<in> set as \<and> key (H' ! a) = key (H ! a))"
        using new(4,6) bound by auto
      show "\<And>k'. map_of (entries_of H' (length H # as)) k' =
          (if k' = k then Some v else map_of (entries_of H as) k')"
        using new(4,5) by (simp add: entries_of_Cons e)
      show "length (length H # as) =
          (if map_of (entries_of H as) k = None then Suc (length as) else length as)"
        using absent by simp
      show "map_of (entries_of H as) k = Some v \<Longrightarrow> H' = H \<and> l' = l"
        using absent by simp
    qed
  next
    case (Some a)
    have a: "a \<in> set as" "key (H ! a) = k" using find_key_Some [OF Some] by simp_all
    have al: "a < length H" using a bound by simp
    have dk: "distinct (map fst (entries_of H as))" using li by (simp add: list_inv_def)
    have present: "map_of (entries_of H as) k = Some (val (H ! a))"
      using Some by (simp add: map_of_entries_find)
    show ?thesis
      using append_ll_update [OF li Some, of v]
    proof (rule reduce)
      show "length H \<le> length (H[a := (H ! a)\<lparr>val := v\<rparr>])" by simp
      show "\<And>b. b < length H \<Longrightarrow> b \<notin> set as \<Longrightarrow> H[a := (H ! a)\<lparr>val := v\<rparr>] ! b = H ! b"
        using a(1) by (metis nth_list_update_neq)
      show "set as \<subseteq> set as \<union> {b. length H \<le> b}" by auto
      show "\<And>b. b \<in> set as \<Longrightarrow> key (H[a := (H ! a)\<lparr>val := v\<rparr>] ! b) = k \<or>
          (b \<in> set as \<and> key (H[a := (H ! a)\<lparr>val := v\<rparr>] ! b) = key (H ! b))"
        using al by (auto simp: nth_list_update)
      show "\<And>k'. map_of (entries_of (H[a := (H ! a)\<lparr>val := v\<rparr>]) as) k' =
          (if k' = k then Some v else map_of (entries_of H as) k')"
        using entries_of_val_update [OF a(1) al a(2) dk] by simp
      show "length as = (if map_of (entries_of H as) k = None then Suc (length as) else length as)"
        using present by simp
      show "map_of (entries_of H as) k = Some v \<Longrightarrow> H[a := (H ! a)\<lparr>val := v\<rparr>] = H \<and> l = l"
        using present al by (simp add: list_update_same_conv)
    qed
  qed
qed

lemma entries_of_remove1:
  assumes "a \<in> set as" "distinct (map fst (entries_of h as))"
  shows "map_of (entries_of h (remove1 a as)) k' =
    (if k' = key (h ! a) then None else map_of (entries_of h as) k')"
  using assms
proof (induction as)
  case Nil
  then show ?case by simp
next
  case (Cons b as)
  have dk: "distinct (map fst (entries_of h as))" "key (h ! b) \<notin> fst ` set (entries_of h as)"
    using Cons.prems(2) by (simp_all add: entries_of_Cons)
  show ?case
  proof (cases "b = a")
    case True
    have "map_of (entries_of h as) (key (h ! a)) = None"
      using dk(2) True by (simp add: map_of_eq_None_iff)
    then show ?thesis using True by (simp add: entries_of_Cons)
  next
    case False
    then have a: "a \<in> set as" using Cons.prems(1) by simp
    then have "key (h ! a) \<in> fst ` set (entries_of h as)"
      by (auto simp: entries_of_def image_iff)
    then have "key (h ! b) \<noteq> key (h ! a)" using dk(2) by metis
    then show ?thesis using Cons.IH [OF a dk(1)] False
      by (cases "k' = key (h ! a)") (simp_all add: entries_of_Cons)
  qed
qed

lemma remove_hm_spec:
  assumes inv: "table_inv hashFn t ass" and vh: "valid_hash hashFn"
    and n: "0 < length (buckets t)"
  shows "\<exists>r t' ass'. remove_hm hashFn t k = Some (r, t') \<and> table_inv hashFn t' ass' \<and>
     length (buckets t') = length (buckets t) \<and>
     (\<forall>k'. get hashFn t' k' = (if k' = k then Some (Inr None) else get hashFn t k')) \<and>
     (if get hashFn t k = Some (Inr None) then r = Inr False \<and> t' = t
      else Suc (length_hm t') = length_hm t \<and>
        r = (if nodeCount (buckets t ! the (hashFn k (length (buckets t)))) = 1
             then Inl TypeError else Inr True))"
proof -
  define H where "H = heap t"
  define bs where "bs = buckets t"
  have la: "length ass = length bs" using inv by (simp add: table_inv_length bs_def)
  obtain i where i: "i < length bs" "hashFn k (length bs) = Some i"
    using valid_hashD [OF vh n, of k] unfolding bs_def by blast
  define as where "as = ass ! i"
  define l where "l = bs ! i"
  have li: "list_inv H l as"
    using table_inv_list [OF inv, of i] i la by (simp add: H_def l_def as_def bs_def)
  have p: "path H (firstNode l) as None" using li by (simp add: list_inv_def)
  have bound: "\<And>b. b \<in> set as \<Longrightarrow> b < length H" using li list_inv_bound by blast
  have getk: "get hashFn t k = Some (Inr (map_of (entries_of H as) k))"
    using get_has_inv(1) [OF inv, of k i] i by (simp add: bs_def H_def as_def)
  have srch: "search H l k = Some (find (\<lambda>a. key (H ! a) = k) as)"
    by (simp add: search_def search_loop_path [OF p])
  show ?thesis
  proof (cases "find (\<lambda>a. key (H ! a) = k) as")
    case None
    have "remove_hm hashFn t k = Some (Inr False, t)"
      using i srch None by (simp add: remove_hm_def bucket_at_def bs_def H_def l_def)
    moreover have g: "get hashFn t k = Some (Inr None)"
      using getk None by (simp add: map_of_entries_find)
    moreover have "get hashFn t k' = (if k' = k then Some (Inr None) else get hashFn t k')" for k'
      using g by simp
    ultimately show ?thesis using inv
      by (intro exI [of _ "Inr False"] exI [of _ t] exI [of _ ass]) simp
  next
    case (Some a)
    have a: "a \<in> set as" "key (H ! a) = k" using find_key_Some [OF Some] by simp_all
    have dk: "distinct (map fst (entries_of H as))" using li by (simp add: list_inv_def)
    have present: "get hashFn t k \<noteq> Some (Inr None)"
      using getk Some by (simp add: map_of_entries_find)
    obtain r0 H' l' where rm: "remove_ll H l a = (r0, H', l')"
      "r0 = Inl TypeError \<longleftrightarrow> as = [a]" "list_inv H' l' (remove1 a as)" "length H' = length H"
      "\<forall>b<length H. key (H' ! b) = key (H ! b) \<and> val (H' ! b) = val (H ! b) \<and>
        (b \<notin> set as \<longrightarrow> H' ! b = H ! b)"
      using remove_ll_spec [OF li a(1)] by blast
    define t' where "t' = t\<lparr>heap := H', buckets := bs[i := l']\<rparr>"
    define r :: "error + bool" where "r = (case r0 of Inl e \<Rightarrow> Inl e | Inr _ \<Rightarrow> Inr True)"
    have run: "remove_hm hashFn t k = Some (r, t')"
      using i srch Some rm(1)
      by (simp add: remove_hm_def bucket_at_def bs_def H_def l_def t'_def r_def split: sum.split)
    have r0: "r0 = (if as = [a] then Inl TypeError else Inr ())"
      using rm(2) by (cases r0) (auto, metis error.exhaust)
    have "nodeCount l = length as" using li by (simp add: list_inv_def)
    moreover have "length as = 1 \<longleftrightarrow> as = [a]"
      using a(1) by (cases as) auto
    ultimately have r: "r = (if nodeCount l = 1 then Inl TypeError else Inr True)"
      using r0 by (simp add: r_def)
    have hash: "hashFn (key (H' ! b)) (length ass) = Some i" if "b \<in> set (remove1 a as)" for b
    proof -
      have b: "b \<in> set as" using that set_remove1_subset [of a as] by blast
      then show ?thesis
        using rm(5) bound [OF b] i la table_inv_hash [OF inv, of i b] by (simp add: as_def H_def)
    qed
    have upd: "table_inv hashFn t' (ass[i := remove1 a as])"
      and other: "\<And>j. j < length ass \<Longrightarrow> j \<noteq> i \<Longrightarrow> entries_of H' (ass ! j) = entries_of H (ass ! j)"
      using table_inv_update_bucket [OF inv, of i H' l' "remove1 a as"] i la rm(3,4,5) hash
        set_remove1_subset [of a as]
      by (auto simp: t'_def bs_def H_def as_def)
    have e: "entries_of H' (remove1 a as) = entries_of H (remove1 a as)"
    proof -
      have "\<forall>b\<in>set (remove1 a as). b < length H"
        using bound set_remove1_subset [of a as] by blast
      then show ?thesis using rm(5) by (simp add: entries_of_def)
    qed
    have gets: "get hashFn t' k' = (if k' = k then Some (Inr None) else get hashFn t k')" for k'
    proof -
      obtain j where j: "j < length bs" "hashFn k' (length bs) = Some j"
        using valid_hashD [OF vh n, of k'] unfolding bs_def by blast
      have g': "get hashFn t' k' = Some (Inr (map_of (entries_of H' (ass[i := remove1 a as] ! j)) k'))"
        using get_has_inv(1) [OF upd, of k' j] j by (simp add: t'_def)
      have g: "get hashFn t k' = Some (Inr (map_of (entries_of H (ass ! j)) k'))"
        using get_has_inv(1) [OF inv, of k' j] j by (simp add: bs_def H_def)
      show ?thesis
      proof (cases "j = i")
        case True
        then show ?thesis
          using g g' e entries_of_remove1 [OF a(1) dk, of k'] a(2) i la by (simp add: as_def)
      next
        case False
        then have "k' \<noteq> k" using i j by auto
        then show ?thesis using g g' other [of j] False j la by simp
      qed
    qed
    have "length_hm t' + length as = length_hm t + length (remove1 a as)"
      using length_hm_inv [OF upd] length_hm_inv [OF inv]
        sum_list_map_update [of i ass length "remove1 a as"] i la by (simp add: as_def)
    moreover have "Suc (length (remove1 a as)) = length as"
      using a(1) by (simp add: length_remove1) (cases as; simp)
    ultimately have cnt: "Suc (length_hm t') = length_hm t" by simp
    have "r = (if nodeCount (buckets t ! the (hashFn k (length (buckets t)))) = 1
             then Inl TypeError else Inr True)"
      using r i by (simp add: l_def bs_def)
    then show ?thesis using run upd gets cnt present
      by (intro exI [of _ r] exI [of _ t'] exI [of _ "ass[i := remove1 a as]"])
        (simp add: t'_def bs_def)
  qed
qed


lemma foldl_push: "foldl (\<lambda>r a. r @ [f a]) r xs = r @ map f xs"
  by (induction xs arbitrary: r) simp_all

lemma buckets_forEach_paths:
  assumes "length ass = length bs"
    and "\<And>i. i < length bs \<Longrightarrow> path h (firstNode (bs ! i)) (ass ! i) None"
  shows "buckets_forEach h callback bs r = Some (foldl (\<lambda>r a. callback (h ! a) r) r (concat ass))"
  using assms
proof (induction bs arbitrary: ass r)
  case Nil
  then show ?case by simp
next
  case (Cons b bs)
  then obtain as ass' where ass: "ass = as # ass'" by (cases ass) auto
  have p: "path h (firstNode b) as None" using Cons.prems(2) [of 0] ass by simp
  have rest: "buckets_forEach h callback bs r' =
      Some (foldl (\<lambda>r a. callback (h ! a) r) r' (concat ass'))" for r'
  proof (rule Cons.IH)
    show "length ass' = length bs" using Cons.prems(1) ass by simp
    show "\<And>i. i < length bs \<Longrightarrow> path h (firstNode (bs ! i)) (ass' ! i) None"
      using Cons.prems(2) [of "Suc i" for i] ass by simp
  qed
  show ?case
    by (simp add: ass forEach_def forEach_loop_path [OF p] rest)
qed

lemma entries_inv:
  assumes "table_inv hashFn t ass"
  shows "entries t = Some (entries_of (heap t) (concat ass))"
    and "keys t = Some (map fst (entries_of (heap t) (concat ass)))"
proof -
  have p: "\<And>i. i < length (buckets t) \<Longrightarrow>
      path (heap t) (firstNode (buckets t ! i)) (ass ! i) None"
    using table_inv_list [OF assms] table_inv_length [OF assms] by (simp add: list_inv_def)
  show "entries t = Some (entries_of (heap t) (concat ass))"
    unfolding entries_def
    by (subst buckets_forEach_paths [OF table_inv_length [OF assms] p])
      (simp_all add: foldl_push entries_of_def)
  show "keys t = Some (map fst (entries_of (heap t) (concat ass)))"
    unfolding keys_def
    by (subst buckets_forEach_paths [OF table_inv_length [OF assms] p])
      (simp_all add: foldl_push entries_of_def comp_def)
qed

lemma concat_keys_distinct:
  assumes "\<And>i. i < length xss \<Longrightarrow> distinct (map f (xss ! i))"
    and "\<And>i x. i < length xss \<Longrightarrow> x \<in> set (xss ! i) \<Longrightarrow> g (f x) = off + i"
  shows "distinct (map f (concat xss))"
  using assms
proof (induction xss arbitrary: off)
  case Nil
  then show ?case by simp
next
  case (Cons xs xss)
  have d: "distinct (map f xs)" using Cons.prems(1) [of 0] by simp
  have here: "\<And>x. x \<in> set xs \<Longrightarrow> g (f x) = off" using Cons.prems(2) [of 0] by simp
  have there: "g (f y) = Suc off + i" if "i < length xss" "y \<in> set (xss ! i)" for i y
    using Cons.prems(2) [of "Suc i" y] that by simp
  have IH: "distinct (map f (concat xss))"
  proof (rule Cons.IH [of "Suc off"])
    show "\<And>i. i < length xss \<Longrightarrow> distinct (map f (xss ! i))"
      using Cons.prems(1) [of "Suc i" for i] by simp
    show "\<And>i x. i < length xss \<Longrightarrow> x \<in> set (xss ! i) \<Longrightarrow> g (f x) = Suc off + i"
      using there by simp
  qed
  have "f x \<noteq> f y" if x: "x \<in> set xs" and y: "y \<in> set (concat xss)" for x y
  proof -
    from y obtain ys where "ys \<in> set xss" "y \<in> set ys" by auto
    then obtain i where "i < length xss" "y \<in> set (xss ! i)" by (auto simp: in_set_conv_nth)
    then have "g (f y) = Suc off + i" by (rule there)
    moreover have "g (f x) = off" using x by (rule here)
    ultimately show ?thesis by auto
  qed
  then have "f ` set xs \<inter> f ` set (concat xss) = {}" by blast
  then show ?case using d IH by simp
qed

lemma concat_map_of:
  assumes "\<And>i x. i < length xss \<Longrightarrow> x \<in> set (xss ! i) \<Longrightarrow> g (f x) = off + i"
    and "i < length xss" "g k = off + i"
  shows "map_of (map (\<lambda>x. (f x, v x)) (concat xss)) k = map_of (map (\<lambda>x. (f x, v x)) (xss ! i)) k"
  using assms
proof (induction xss arbitrary: off i)
  case Nil
  then show ?case by simp
next
  case (Cons xs xss)
  have here: "\<And>x. x \<in> set xs \<Longrightarrow> g (f x) = off" using Cons.prems(1) [of 0] by simp
  have there: "g (f y) = Suc off + j" if "j < length xss" "y \<in> set (xss ! j)" for j y
    using Cons.prems(1) [of "Suc j" y] that by simp
  show ?case
  proof (cases i)
    case 0
    have "k \<noteq> f y" if y: "y \<in> set (concat xss)" for y
    proof -
      from y obtain ys where "ys \<in> set xss" "y \<in> set ys" by auto
      then obtain j where "j < length xss" "y \<in> set (xss ! j)" by (auto simp: in_set_conv_nth)
      then have "g (f y) = Suc off + j" by (rule there)
      then show ?thesis using Cons.prems(3) 0 by auto
    qed
    then have "map_of (map (\<lambda>x. (f x, v x)) (concat xss)) k = None"
      by (auto simp: map_of_eq_None_iff image_iff)
    then show ?thesis using 0 by (simp add: map_add_def split: option.split)
  next
    case (Suc i')
    have "k \<noteq> f x" if "x \<in> set xs" for x
      using here [OF that] Cons.prems(3) Suc by auto
    then have none: "map_of (map (\<lambda>x. (f x, v x)) xs) k = None"
      by (auto simp: map_of_eq_None_iff image_iff)
    have "map_of (map (\<lambda>x. (f x, v x)) (concat xss)) k =
        map_of (map (\<lambda>x. (f x, v x)) (xss ! i')) k"
    proof (rule Cons.IH [of "Suc off"])
      show "\<And>j x. j < length xss \<Longrightarrow> x \<in> set (xss ! j) \<Longrightarrow> g (f x) = Suc off + j"
        using there by simp
      show "i' < length xss" using Cons.prems(2) Suc by simp
      show "g k = Suc off + i'" using Cons.prems(3) Suc by simp
    qed
    then show ?thesis using Suc none by (simp add: map_add_def)
  qed
qed

lemma entries_spec:
  assumes inv: "table_inv hashFn t ass" and vh: "valid_hash hashFn"
    and n: "0 < length (buckets t)"
  shows "\<exists>es. entries t = Some es \<and> keys t = Some (map fst es) \<and> distinct (map fst es) \<and>
     length es = length_hm t \<and> (\<forall>k. get hashFn t k = Some (Inr (map_of es k)))"
proof -
  define es where "es = entries_of (heap t) (concat ass)"
  define g where "g = (\<lambda>k. the (hashFn k (length ass)))"
  have la: "length ass = length (buckets t)" using inv by (rule table_inv_length)
  have place: "g (key (heap t ! a)) = 0 + i" if "i < length ass" "a \<in> set (ass ! i)" for i a
    using table_inv_hash [OF inv that] by (simp add: g_def)
  have d: "distinct (map (\<lambda>a. key (heap t ! a)) (ass ! i))" if "i < length ass" for i
    using table_inv_list [OF inv that] by (simp add: list_inv_def entries_of_def comp_def)
  have "distinct (map (\<lambda>a. key (heap t ! a)) (concat ass))"
    using d place by (rule concat_keys_distinct [where g = g and off = 0])
  then have dk: "distinct (map fst es)" by (simp add: es_def entries_of_def comp_def)
  have len: "length es = length_hm t"
    using length_hm_inv [OF inv] by (simp add: es_def entries_of_def length_concat)
  have gets: "get hashFn t k = Some (Inr (map_of es k))" for k
  proof -
    obtain i where i: "i < length (buckets t)" "hashFn k (length (buckets t)) = Some i"
      using valid_hashD [OF vh n, of k] by blast
    have "map_of es k = map_of (entries_of (heap t) (ass ! i)) k"
      unfolding es_def entries_of_def
      using place i la by (intro concat_map_of [where g = g and off = 0]) (simp_all add: g_def)
    then show ?thesis using get_has_inv(1) [OF inv i(2,1)] by simp
  qed
  show ?thesis using entries_inv [OF inv] dk len gets unfolding es_def [symmetric] by blast
qed


lemma resize_needed_iff:
  assumes "0 < length (buckets t)"
  shows "(case loadFactor t of None \<Rightarrow> False | Some f \<Rightarrow> 3 / 4 \<le> f) \<longleftrightarrow>
    3 * length (buckets t) \<le> 4 * length_hm t"
proof -
  define n where "n = length (buckets t)"
  define m where "m = length_hm t"
  have n: "0 < (of_nat n :: rat)" using assms by (simp add: n_def)
  have "(3 / 4 \<le> (of_nat m :: rat) / of_nat n) \<longleftrightarrow> (3 * (of_nat n :: rat) \<le> 4 * of_nat m)"
    using n by (simp add: field_simps)
  also have "\<dots> \<longleftrightarrow> (of_nat (3 * n) :: rat) \<le> of_nat (4 * m)" by simp
  also have "\<dots> \<longleftrightarrow> 3 * n \<le> 4 * m" by (rule of_nat_le_iff)
  finally show ?thesis using assms by (simp add: loadFactor_def n_def m_def)
qed

lemma set_hm_no_resize:
  assumes "0 < length (buckets t)" "4 * length_hm t < 3 * length (buckets t)"
  shows "set_hm hashFn t k v = put hashFn t k v"
proof -
  have "resizeBucketsIfNeeded (set_hm hashFn) t = Some (Inr (), t)"
    using assms resize_needed_iff [OF assms(1)] by (simp add: resizeBucketsIfNeeded_def)
  then show ?thesis by (simp add: set_hm_unfold)
qed

lemma resize_inv:
  shows "table_inv hashFn (resize m t) (replicate m [])"
    and "length (buckets (resize m t)) = m"
    and "length_hm (resize m t) = 0"
proof -
  show "table_inv hashFn (resize m t) (replicate m [])"
    by (simp add: table_inv_def resize_def list_inv_def LinkedList_def entries_of_def)
  then show "length_hm (resize m t) = 0"
    by (simp add: length_hm_inv)
  show "length (buckets (resize m t)) = m" by (simp add: resize_def)
qed

lemma get_resize:
  assumes "valid_hash hashFn" "0 < m"
  shows "get hashFn (resize m t) k = Some (Inr None)"
proof -
  obtain i where i: "i < m" "hashFn k m = Some i"
    using valid_hashD [OF assms, of k] by blast
  show ?thesis
    using get_has_inv(1) [OF resize_inv(1) [of hashFn m t], of k i] i
    by (simp add: resize_inv(2) entries_of_def)
qed

lemma rehash_spec:
  assumes "table_inv hashFn t ass" "valid_hash hashFn" "0 < length (buckets t)"
    and "4 * (length_hm t + length es) < 3 * length (buckets t) + 4"
  shows "\<exists>t' ass'. elements_forEach (set_hm hashFn) t es = Some (Inr (), t') \<and>
     table_inv hashFn t' ass' \<and> length (buckets t') = length (buckets t) \<and>
     (\<forall>k. get hashFn t' k =
        (case map_of (rev es) k of Some v \<Rightarrow> Some (Inr (Some v)) | None \<Rightarrow> get hashFn t k)) \<and>
     length_hm t' \<le> length_hm t + length es \<and>
     (distinct (map fst es) \<and> (\<forall>k\<in>fst ` set es. get hashFn t k = Some (Inr None)) \<longrightarrow>
        length_hm t' = length_hm t + length es)"
  using assms
proof (induction es arbitrary: t ass)
  case Nil
  then show ?case by auto
next
  case (Cons kv es)
  obtain k v where kv: "kv = (k, v)" by (cases kv)
  have small: "4 * length_hm t < 3 * length (buckets t)" using Cons.prems(4) by simp
  obtain t1 ass1 where t1: "put hashFn t k v = Some (Inr (), t1)" "table_inv hashFn t1 ass1"
    "length (buckets t1) = length (buckets t)"
    "\<And>k'. get hashFn t1 k' = (if k' = k then Some (Inr (Some v)) else get hashFn t k')"
    "length_hm t1 = (if get hashFn t k = Some (Inr None) then Suc (length_hm t) else length_hm t)"
    using put_spec [OF Cons.prems(1,2,3), of k v] by blast
  have set1: "set_hm hashFn t k v = Some (Inr (), t1)"
    using set_hm_no_resize [OF Cons.prems(3) small] t1(1) by simp
  have le1: "length_hm t1 \<le> Suc (length_hm t)" using t1(5) by simp
  obtain t' ass' where t': "elements_forEach (set_hm hashFn) t1 es = Some (Inr (), t')"
    "table_inv hashFn t' ass'" "length (buckets t') = length (buckets t1)"
    "\<And>k'. get hashFn t' k' =
        (case map_of (rev es) k' of Some v \<Rightarrow> Some (Inr (Some v)) | None \<Rightarrow> get hashFn t1 k')"
    "length_hm t' \<le> length_hm t1 + length es"
    "distinct (map fst es) \<and> (\<forall>k\<in>fst ` set es. get hashFn t1 k = Some (Inr None)) \<longrightarrow>
        length_hm t' = length_hm t1 + length es"
    using Cons.IH [OF t1(2) Cons.prems(2), of] Cons.prems(3,4) t1(3) le1 by force
  have run: "elements_forEach (set_hm hashFn) t (kv # es) = Some (Inr (), t')"
    by (simp add: kv set1 t'(1))
  have gets: "get hashFn t' k' =
      (case map_of (rev (kv # es)) k' of Some v \<Rightarrow> Some (Inr (Some v)) | None \<Rightarrow> get hashFn t k')"
    for k'
    by (simp add: t'(4) t1(4) kv map_add_def split: option.split)
  have cnt: "length_hm t' = length_hm t + length (kv # es)"
    if d: "distinct (map fst (kv # es))"
      and absent: "\<forall>k\<in>fst ` set (kv # es). get hashFn t k = Some (Inr None)"
  proof -
    have "length_hm t1 = Suc (length_hm t)" using t1(5) absent kv by simp
    moreover have "\<forall>k'\<in>fst ` set es. get hashFn t1 k' = Some (Inr None)"
      using d absent kv t1(4) by auto
    ultimately show ?thesis using t'(6) d by simp
  qed
  show ?case
    using run t'(2,3,5) t1(3) le1 gets cnt
    by (intro exI [of _ t'] exI [of _ ass']) auto
qed

section \<open>Resizing, and sequences of operations\<close>

lemma map_of_rev_distinct:
  "distinct (map fst xs) \<Longrightarrow> map_of (rev xs) = map_of xs"
  by (simp add: map_of_inject_set distinct_rev rev_map [symmetric])

lemma resizeBucketsIfNeeded_spec:
  assumes ok: "table_ok hashFn t" and vh: "valid_hash hashFn"
  shows "\<exists>t1 ass1. resizeBucketsIfNeeded (set_hm hashFn) t = Some (Inr (), t1) \<and>
     table_inv hashFn t1 ass1 \<and>
     length (buckets t1) =
       (if 3 * length (buckets t) \<le> 4 * length_hm t then 2 * length (buckets t)
        else length (buckets t)) \<and>
     (\<forall>k. get hashFn t1 k = get hashFn t k) \<and> length_hm t1 = length_hm t \<and>
     4 * length_hm t1 < 3 * length (buckets t1) \<and>
     (\<not> 3 * length (buckets t) \<le> 4 * length_hm t \<longrightarrow> t1 = t)"
proof -
  from ok obtain ass where inv: "table_inv hashFn t ass" and n: "0 < length (buckets t)"
    and load: "4 * length_hm t \<le> 3 * length (buckets t) + 3"
    by (auto simp: table_ok_def)
  show ?thesis
  proof (cases "3 * length (buckets t) \<le> 4 * length_hm t")
    case False
    have "resizeBucketsIfNeeded (set_hm hashFn) t = Some (Inr (), t)"
      using False resize_needed_iff [OF n] by (simp add: resizeBucketsIfNeeded_def)
    then show ?thesis using False inv
      by (intro exI [of _ t] exI [of _ ass]) simp
  next
    case True
    obtain es where es: "entries t = Some es" "distinct (map fst es)" "length es = length_hm t"
      "\<And>k. get hashFn t k = Some (Inr (map_of es k))"
      using entries_spec [OF inv vh n] by blast
    define t0 where "t0 = resize (length (buckets t) * 2) t"
    have t0: "table_inv hashFn t0 (replicate (length (buckets t) * 2) [])"
      "length (buckets t0) = length (buckets t) * 2" "length_hm t0 = 0"
      "\<And>k. get hashFn t0 k = Some (Inr None)"
      using n by (simp_all add: t0_def resize_inv get_resize [OF vh])
    have room: "4 * (length_hm t0 + length es) < 3 * length (buckets t0) + 4"
      using load n es(3) t0(2,3) by simp
    have n0: "0 < length (buckets t0)" using n t0(2) by simp
    obtain t1 ass1 where t1: "elements_forEach (set_hm hashFn) t0 es = Some (Inr (), t1)"
      "table_inv hashFn t1 ass1" "length (buckets t1) = length (buckets t0)"
      "\<And>k. get hashFn t1 k =
        (case map_of (rev es) k of Some v \<Rightarrow> Some (Inr (Some v)) | None \<Rightarrow> get hashFn t0 k)"
      "distinct (map fst es) \<and> (\<forall>k\<in>fst ` set es. get hashFn t0 k = Some (Inr None)) \<longrightarrow>
        length_hm t1 = length_hm t0 + length es"
      using rehash_spec [OF t0(1) vh n0 room] by blast
    have run: "resizeBucketsIfNeeded (set_hm hashFn) t = Some (Inr (), t1)"
      using True resize_needed_iff [OF n] es(1) t1(1)
      by (simp add: resizeBucketsIfNeeded_def t0_def)
    have gets: "get hashFn t1 k = get hashFn t k" for k
      by (simp add: t1(4) t0(4) es(4) map_of_rev_distinct [OF es(2)] split: option.split)
    have cnt: "length_hm t1 = length_hm t"
      using t1(5) es(2,3) t0(3,4) by simp
    have "4 * length_hm t < 3 * (length (buckets t) * 2)"
      using load n by presburger
    then have "4 * length_hm t1 < 3 * length (buckets t1)"
      by (simp only: cnt t1(3) t0(2))
    then show ?thesis using run t1(2,3) t0(2) gets cnt True
      by (intro exI [of _ t1] exI [of _ ass1]) simp
  qed
qed

lemma set_hm_spec:
  assumes ok: "table_ok hashFn t" and vh: "valid_hash hashFn"
  shows "\<exists>t1 t'. resizeBucketsIfNeeded (set_hm hashFn) t = Some (Inr (), t1) \<and>
     4 * length_hm t1 < 3 * length (buckets t1) \<and> length_hm t1 = length_hm t \<and>
     put hashFn t1 k v = Some (Inr (), t') \<and> set_hm hashFn t k v = Some (Inr (), t') \<and>
     table_ok hashFn t' \<and> length (buckets t') = length (buckets t1) \<and>
     length (buckets t') =
       (if 3 * length (buckets t) \<le> 4 * length_hm t then 2 * length (buckets t)
        else length (buckets t)) \<and>
     (\<forall>k'. get hashFn t' k' = (if k' = k then Some (Inr (Some v)) else get hashFn t k')) \<and>
     length_hm t' = (if get hashFn t k = Some (Inr None) then Suc (length_hm t) else length_hm t) \<and>
     (get hashFn t k = Some (Inr (Some v)) \<and> \<not> 3 * length (buckets t) \<le> 4 * length_hm t \<longrightarrow>
        t' = t)"
proof -
  from ok have n: "0 < length (buckets t)" by (simp add: table_ok_def)
  obtain t1 ass1 where t1: "resizeBucketsIfNeeded (set_hm hashFn) t = Some (Inr (), t1)"
    "table_inv hashFn t1 ass1"
    "length (buckets t1) =
       (if 3 * length (buckets t) \<le> 4 * length_hm t then 2 * length (buckets t)
        else length (buckets t))"
    "\<And>k. get hashFn t1 k = get hashFn t k" "length_hm t1 = length_hm t"
    "4 * length_hm t1 < 3 * length (buckets t1)"
    "\<not> 3 * length (buckets t) \<le> 4 * length_hm t \<longrightarrow> t1 = t"
    using resizeBucketsIfNeeded_spec [OF ok vh] by blast
  have n1: "0 < length (buckets t1)" using n t1(3) by (simp split: if_splits)
  obtain t' ass' where t': "put hashFn t1 k v = Some (Inr (), t')" "table_inv hashFn t' ass'"
    "length (buckets t') = length (buckets t1)"
    "\<And>k'. get hashFn t' k' = (if k' = k then Some (Inr (Some v)) else get hashFn t1 k')"
    "length_hm t' = (if get hashFn t1 k = Some (Inr None) then Suc (length_hm t1) else length_hm t1)"
    "get hashFn t1 k = Some (Inr (Some v)) \<longrightarrow> t' = t1"
    using put_spec [OF t1(2) vh n1, of k v] by blast
  have run: "set_hm hashFn t k v = Some (Inr (), t')"
    by (simp add: set_hm_unfold t1(1) t'(1))
  have "4 * length_hm t' \<le> 3 * length (buckets t') + 3"
    using t'(3,5) t1(6) by (simp split: if_splits)
  then have ok': "table_ok hashFn t'"
    using t'(2,3) n1 by (auto simp: table_ok_def)
  show ?thesis
    using t1(1,6,5) t'(1) run ok' t'(3) t1(3) t'(4,5,6) t1(4,7)
    by (intro exI [of _ t1] exI [of _ t']) simp
qed


lemma get_total:
  assumes "table_ok hashFn t" "valid_hash hashFn"
  shows "\<exists>r. get hashFn t k = Some (Inr r) \<and> has hashFn t k = Some (Inr (r \<noteq> None))"
proof -
  from assms(1) obtain ass where inv: "table_inv hashFn t ass" and n: "0 < length (buckets t)"
    by (auto simp: table_ok_def)
  obtain i where i: "i < length (buckets t)" "hashFn k (length (buckets t)) = Some i"
    using valid_hashD [OF assms(2) n, of k] by blast
  show ?thesis using get_has_inv [OF inv i(2,1)] by simp
qed

lemma remove_hm_ok:
  assumes ok: "table_ok hashFn t" and vh: "valid_hash hashFn"
  shows "\<exists>r t'. remove_hm hashFn t k = Some (r, t') \<and> table_ok hashFn t' \<and>
     length (buckets t') = length (buckets t) \<and>
     (\<forall>k'. get hashFn t' k' = (if k' = k then Some (Inr None) else get hashFn t k')) \<and>
     (if get hashFn t k = Some (Inr None) then r = Inr False \<and> t' = t
      else Suc (length_hm t') = length_hm t \<and>
        r = (if nodeCount (buckets t ! the (hashFn k (length (buckets t)))) = 1
             then Inl TypeError else Inr True))"
proof -
  from ok obtain ass where inv: "table_inv hashFn t ass" and n: "0 < length (buckets t)"
    and load: "4 * length_hm t \<le> 3 * length (buckets t) + 3"
    by (auto simp: table_ok_def)
  obtain r t' ass' where r: "remove_hm hashFn t k = Some (r, t')" "table_inv hashFn t' ass'"
    "length (buckets t') = length (buckets t)"
    "\<And>k'. get hashFn t' k' = (if k' = k then Some (Inr None) else get hashFn t k')"
    "if get hashFn t k = Some (Inr None) then r = Inr False \<and> t' = t
      else Suc (length_hm t') = length_hm t \<and>
        r = (if nodeCount (buckets t ! the (hashFn k (length (buckets t)))) = 1
             then Inl TypeError else Inr True)"
    using remove_hm_spec [OF inv vh n, of k] by blast
  have "length_hm t' \<le> length_hm t" using r(5) by (auto split: if_splits)
  then have "table_ok hashFn t'"
    using r(2,3) n load by (auto simp: table_ok_def)
  then show ?thesis using r by (intro exI [of _ r] exI [of _ t']) simp
qed

lemma clear_hm_ok:
  assumes ok: "table_ok hashFn t" and vh: "valid_hash hashFn"
  shows "table_ok hashFn (clear_hm t)" "get hashFn (clear_hm t) k = Some (Inr None)"
proof -
  from ok have n: "0 < length (buckets t)" by (simp add: table_ok_def)
  have inv: "table_inv hashFn (clear_hm t) (replicate (length (buckets t)) [])"
    by (simp add: table_inv_def clear_hm_def clear_ll_def list_inv_def entries_of_def)
  then show "table_ok hashFn (clear_hm t)"
    using n length_hm_inv [OF inv] by (auto simp: table_ok_def clear_hm_def sum_list_replicate)
  obtain i where i: "i < length (buckets t)" "hashFn k (length (buckets t)) = Some i"
    using valid_hashD [OF vh n, of k] by blast
  show "get hashFn (clear_hm t) k = Some (Inr None)"
    using get_has_inv(1) [OF inv, of k i] i by (simp add: clear_hm_def entries_of_def)
qed

lemma fresh_table_ok:
  assumes "0 < m"
  shows "table_ok hashFn (resize m t)"
  using assms resize_inv(1) [of hashFn m t] resize_inv(2,3) [of m t]
  by (auto simp: table_ok_def)

lemma HashMap_ok: "table_ok hashFn HashMap"
  unfolding HashMap_def by (rule fresh_table_ok) simp

lemma step_spec:
  assumes ok: "table_ok hashFn t" and vh: "valid_hash hashFn"
    and m: "\<And>k. get hashFn t k = Some (Inr (m k))"
  shows "\<exists>t'. step hashFn t x = Some t' \<and> table_ok hashFn t' \<and>
     (\<forall>k. get hashFn t' k = Some (Inr (apply_op x m k)))"
proof (cases x)
  case (Set k v)
  obtain t' where "set_hm hashFn t k v = Some (Inr (), t')" "table_ok hashFn t'"
    "\<And>k'. get hashFn t' k' = (if k' = k then Some (Inr (Some v)) else get hashFn t k')"
    using set_hm_spec [OF ok vh, of k v] by blast
  then show ?thesis using Set m by (intro exI [of _ t']) simp
next
  case (Remove k)
  obtain r t' where "remove_hm hashFn t k = Some (r, t')" "table_ok hashFn t'"
    "\<And>k'. get hashFn t' k' = (if k' = k then Some (Inr None) else get hashFn t k')"
    using remove_hm_ok [OF ok vh, of k] by blast
  then show ?thesis using Remove m by (intro exI [of _ t']) simp
next
  case Clear
  then show ?thesis using clear_hm_ok [OF ok vh] by simp
qed

lemma run_spec:
  assumes "table_ok hashFn t" "valid_hash hashFn" "\<And>k. get hashFn t k = Some (Inr (m k))"
  shows "\<exists>t'. run hashFn t xs = Some t' \<and> table_ok hashFn t' \<and>
     (\<forall>k. get hashFn t' k = Some (Inr (foldl (\<lambda>m x. apply_op x m) m xs k)))"
  using assms
proof (induction xs arbitrary: t m)
  case Nil
  then show ?case by simp
next
  case (Cons x xs)
  obtain t1 where t1: "step hashFn t x = Some t1" "table_ok hashFn t1"
    "\<And>k. get hashFn t1 k = Some (Inr (apply_op x m k))"
    using step_spec [OF Cons.prems(1,2), of m x] Cons.prems(3) by blast
  show ?case using Cons.IH [OF t1(2) Cons.prems(2) t1(3)] t1(1) by simp
qed

lemma get_HashMap:
  assumes "valid_hash hashFn"
  shows "get hashFn HashMap k = Some (Inr None)"
  unfolding HashMap_def by (rule get_resize [OF assms]) simp

lemma foldl_apply_op_latest_value:
  "foldl (\<lambda>m x. apply_op x m) Map.empty xs k = latest_value k (rev xs)"
proof (induction xs rule: rev_induct)
  case Nil
  then show ?case by simp
next
  case (snoc x xs)
  then show ?case by (cases x) simp_all
qed

lemma run_HashMap:
  fixes hashFn :: "'k hashFn" and xs :: "('k, 'v) operation list"
  assumes "valid_hash hashFn"
  shows "\<exists>t. run hashFn HashMap xs = Some t \<and> table_ok hashFn t \<and>
     (\<forall>k. get hashFn t k = Some (Inr (latest_value k (rev xs))))"
proof -
  have "\<And>k. get hashFn (HashMap :: ('k, 'v) HashMap) k = Some (Inr (Map.empty k))"
    by (simp add: get_HashMap [OF assms])
  from run_spec [OF HashMap_ok assms this, of xs] show ?thesis
    by (simp add: foldl_apply_op_latest_value)
qed

lemma valid_hash_default: "valid_hash defaultHashFunction"
  unfolding valid_hash_def using defaultHashFunction_bound by blast

lemma loadFactor_less:
  assumes "0 < length (buckets t)"
  shows "\<exists>f. loadFactor t = Some f \<and>
     (f < 3 / 4 \<longleftrightarrow> 4 * length_hm t < 3 * length (buckets t)) \<and>
     (f - 1 / of_nat (length (buckets t)) < 3 / 4 \<longleftrightarrow>
        4 * length_hm t < 3 * length (buckets t) + 4)"
proof -
  define n where "n = length (buckets t)"
  define m where "m = length_hm t"
  have n: "0 < (of_nat n :: rat)" using assms by (simp add: n_def)
  have "((of_nat m :: rat) / of_nat n < 3 / 4) \<longleftrightarrow> (4 * (of_nat m :: rat) < 3 * of_nat n)"
    using n by (simp add: field_simps)
  also have "\<dots> \<longleftrightarrow> (of_nat (4 * m) :: rat) < of_nat (3 * n)" by simp
  also have "\<dots> \<longleftrightarrow> 4 * m < 3 * n" by (rule of_nat_less_iff)
  finally have a: "((of_nat m :: rat) / of_nat n < 3 / 4) \<longleftrightarrow> 4 * m < 3 * n" .
  have "((of_nat m :: rat) / of_nat n - 1 / of_nat n < 3 / 4) \<longleftrightarrow>
      (4 * (of_nat m :: rat) < 3 * of_nat n + 4)"
    using n by (simp add: field_simps)
  also have "\<dots> \<longleftrightarrow> (of_nat (4 * m) :: rat) < of_nat (3 * n + 4)" by simp
  also have "\<dots> \<longleftrightarrow> 4 * m < 3 * n + 4" by (rule of_nat_less_iff)
  finally have b: "((of_nat m :: rat) / of_nat n - 1 / of_nat n < 3 / 4) \<longleftrightarrow> 4 * m < 3 * n + 4" .
  show ?thesis using assms a b by (simp add: loadFactor_def n_def m_def)
qed

section \<open>Removing the only entry of a chain\<close>

text \<open>
  C1. The claim asks that \<^verbatim>\<open>remove\<close> on the only entry of a chain set head and tail to
  null without dereferencing a null neighbour. The code does not: for every
  well-formed chain of exactly one entry, \<^verbatim>\<open>remove\<close> decrements the count, sets
  \<^verbatim>\<open>firstNode\<close> to null and then throws a TypeError at \<^verbatim>\<open>node.next.prev = null\<close>;
  \<^verbatim>\<open>lastNode\<close> still refers to the removed entry.
\<close>

theorem remove_ll_sole_entry_throws:
  assumes "list_inv h l [a]"
  shows "remove_ll h l a = (Inl TypeError, h, l\<lparr>nodeCount := 0, firstNode := None\<rparr>)"
proof -
  from assms have "nodeCount l \<noteq> 0" "nodeCount l - 1 = 0" "prev (h ! a) = None" "next (h ! a) = None"
    by (simp_all add: list_inv_def)
  then show ?thesis using remove_ll_only [of l h a] by simp
qed

theorem remove_ll_sole_entry_throws_witness:
  "append_ll [] LinkedList [97 :: 16 word] (1 :: nat) =
     Some ([\<lparr>key = [97], val = 1, next = None, prev = None\<rparr>],
           \<lparr>firstNode = Some 0, lastNode = Some 0, nodeCount = 1\<rparr>, 0) \<and>
   list_inv [\<lparr>key = [97 :: 16 word], val = 1 :: nat, next = None, prev = None\<rparr>]
     \<lparr>firstNode = Some 0, lastNode = Some 0, nodeCount = 1\<rparr> [0] \<and>
   remove_ll [\<lparr>key = [97 :: 16 word], val = 1 :: nat, next = None, prev = None\<rparr>]
     \<lparr>firstNode = Some 0, lastNode = Some 0, nodeCount = 1\<rparr> 0 =
     (Inl TypeError, [\<lparr>key = [97], val = 1, next = None, prev = None\<rparr>],
      \<lparr>firstNode = None, lastNode = Some 0, nodeCount = 0\<rparr>)"
proof -
  have a: "append_ll [] LinkedList [97 :: 16 word] (1 :: nat) =
     Some ([\<lparr>key = [97], val = 1, next = None, prev = None\<rparr>],
           \<lparr>firstNode = Some 0, lastNode = Some 0, nodeCount = 1\<rparr>, 0)"
    by code_simp
  have i: "list_inv [\<lparr>key = [97 :: 16 word], val = 1 :: nat, next = None, prev = None\<rparr>]
     \<lparr>firstNode = Some 0, lastNode = Some 0, nodeCount = 1\<rparr> [0]"
    by (simp add: list_inv_def entries_of_def)
  show ?thesis using a i remove_ll_sole_entry_throws [OF i] by simp
qed

text \<open>
  C2. The claim asks that \<^verbatim>\<open>remove(key)\<close> of a present key return true without
  raising an error. After \<^verbatim>\<open>set("a", 1)\<close> on a new table the key is present
  (\<^verbatim>\<open>has\<close> is true, \<^verbatim>\<open>length()\<close> is 1), and \<^verbatim>\<open>remove("a")\<close> throws a TypeError: the
  key is the only entry of its bucket. The table the throw leaves no longer has the
  key, and its \<^verbatim>\<open>length()\<close> is 0.
\<close>

theorem remove_hm_sole_entry_example:
  "\<exists>t t'. run defaultHashFunction HashMap [Set [97] (1 :: nat)] = Some t \<and>
     has defaultHashFunction t [97] = Some (Inr True) \<and> length_hm t = 1 \<and>
     remove_hm defaultHashFunction t [97] = Some (Inl TypeError, t') \<and>
     has defaultHashFunction t' [97] = Some (Inr False) \<and> length_hm t' = 0"
proof -
  obtain t where t: "run defaultHashFunction HashMap [Set [97] (1 :: nat)] = Some t"
    using run_HashMap [OF valid_hash_default] by blast
  have "map_option (\<lambda>t. (has defaultHashFunction t [97], length_hm t,
        map_option (\<lambda>(r, t'). (r, has defaultHashFunction t' [97], length_hm t'))
          (remove_hm defaultHashFunction t [97])))
      (run defaultHashFunction HashMap [Set [97] (1 :: nat)]) =
      Some (Some (Inr True), 1, Some (Inl TypeError, Some (Inr False), 0))"
    by code_simp
  then have e: "has defaultHashFunction t [97] = Some (Inr True)" "length_hm t = 1"
    "map_option (\<lambda>(r, t'). (r, has defaultHashFunction t' [97], length_hm t'))
          (remove_hm defaultHashFunction t [97]) = Some (Inl TypeError, Some (Inr False), 0)"
    unfolding t by simp_all
  from e(3) obtain t' where "remove_hm defaultHashFunction t [97] = Some (Inl TypeError, t')"
    "has defaultHashFunction t' [97] = Some (Inr False)" "length_hm t' = 0"
    by auto
  then show ?thesis using t e(1,2) by blast
qed

section \<open>Lookup after a sequence of operations\<close>

text \<open>
  C3. After every sequence of \<^verbatim>\<open>set\<close>, \<^verbatim>\<open>remove\<close> and \<^verbatim>\<open>clear\<close> on a new table, with
  a hash function that returns bucket indices, the sequence runs to its end, and for
  every key \<^verbatim>\<open>get\<close> returns the value of the most recent \<^verbatim>\<open>set\<close> of the key that no
  \<^verbatim>\<open>remove\<close> of the key and no \<^verbatim>\<open>clear\<close> followed, and null if there is none; \<^verbatim>\<open>has\<close>
  returns true in the first case and false in the second. Neither throws. (A
  \<^verbatim>\<open>remove\<close> in the sequence that throws still unlinks its entry; the sequence goes
  on with the table as the throw left it.)
\<close>

theorem get_has_after_operations:
  assumes "valid_hash hashFn"
  shows "\<exists>t. run hashFn HashMap ops = Some t \<and>
     get hashFn t k = Some (Inr (latest_value k (rev ops))) \<and>
     has hashFn t k = Some (Inr (latest_value k (rev ops) \<noteq> None))"
proof -
  obtain t where t: "run hashFn HashMap ops = Some t" "table_ok hashFn t"
    "\<And>k. get hashFn t k = Some (Inr (latest_value k (rev ops)))"
    using run_HashMap [OF assms, of ops] by blast
  show ?thesis using t(1) t(3) [of k] get_total [OF t(2) assms, of k] by simp
qed

theorem get_has_after_operations_witness:
  "\<exists>t. run defaultHashFunction HashMap
          [Set [97] (1 :: nat), Set [98] 2, Set [97] 3, Set [99] 4, Remove [98]] = Some t \<and>
     get defaultHashFunction t [97] = Some (Inr (Some 3)) \<and>
     has defaultHashFunction t [97] = Some (Inr True) \<and>
     get defaultHashFunction t [98] = Some (Inr None) \<and>
     has defaultHashFunction t [98] = Some (Inr False)"
proof -
  define ops :: "(jsstring, nat) operation list"
    where "ops = [Set [97] 1, Set [98] 2, Set [97] 3, Set [99] 4, Remove [98]]"
  obtain t where t: "run defaultHashFunction HashMap ops = Some t"
    and a: "get defaultHashFunction t [97] = Some (Inr (latest_value [97] (rev ops)))"
      "has defaultHashFunction t [97] = Some (Inr (latest_value [97] (rev ops) \<noteq> None))"
    using get_has_after_operations [OF valid_hash_default, of ops "[97]"] by blast
  have b: "get defaultHashFunction t [98] = Some (Inr (latest_value [98] (rev ops)))"
      "has defaultHashFunction t [98] = Some (Inr (latest_value [98] (rev ops) \<noteq> None))"
    using get_has_after_operations [OF valid_hash_default, of ops "[98]"] t by auto
  have "get defaultHashFunction t [97] = Some (Inr (Some 3))"
    "has defaultHashFunction t [97] = Some (Inr True)"
    "get defaultHashFunction t [98] = Some (Inr None)"
    "has defaultHashFunction t [98] = Some (Inr False)"
    using a b by (simp_all add: ops_def)
  then show ?thesis using t unfolding ops_def by blast
qed

section \<open>Resizing\<close>

text \<open>
  C4, as amended. In every table state reached from a new table in which a call
  \<^verbatim>\<open>set(k, v)\<close> triggers a resize (\<^verbatim>\<open>loadFactor() >= 0.75\<close>): the call returns, the
  number of buckets afterwards is twice the number before, \<^verbatim>\<open>get(k)\<close> returns \<open>v\<close>, and
  \<^verbatim>\<open>get\<close> of every other key returns what it returned before the call.
\<close>

theorem set_with_resize_keeps_other_keys:
  assumes "valid_hash hashFn"
  shows "\<exists>t. run hashFn HashMap ops = Some t \<and>
     ((case loadFactor t of None \<Rightarrow> False | Some f \<Rightarrow> 3 / 4 \<le> f) \<longrightarrow>
      (\<exists>t'. set_hm hashFn t k v = Some (Inr (), t') \<and>
         length (buckets t') = 2 * length (buckets t) \<and>
         get hashFn t' k = Some (Inr (Some v)) \<and>
         (\<forall>k'. k' \<noteq> k \<longrightarrow> get hashFn t' k' = get hashFn t k')))"
proof -
  obtain t where t: "run hashFn HashMap ops = Some t" "table_ok hashFn t"
    using run_HashMap [OF assms, of ops] by blast
  have n: "0 < length (buckets t)" using t(2) by (simp add: table_ok_def)
  obtain t' where t': "set_hm hashFn t k v = Some (Inr (), t')"
    "length (buckets t') =
       (if 3 * length (buckets t) \<le> 4 * length_hm t then 2 * length (buckets t)
        else length (buckets t))"
    "\<And>k'. get hashFn t' k' = (if k' = k then Some (Inr (Some v)) else get hashFn t k')"
    using set_hm_spec [OF t(2) assms, of k v] by blast
  show ?thesis
    using t(1) t' resize_needed_iff [OF n] by (intro exI [of _ t]) auto
qed

theorem set_with_resize_keeps_other_keys_witness:
  "\<exists>t t'. run defaultHashFunction HashMap twelve_sets = Some t \<and>
     loadFactor t = Some (3 / 4) \<and>
     set_hm defaultHashFunction t [97] 2 = Some (Inr (), t') \<and>
     length (buckets t) = 16 \<and> length (buckets t') = 32 \<and>
     get defaultHashFunction t' [97] = Some (Inr (Some 2)) \<and>
     get defaultHashFunction t' [98] = get defaultHashFunction t [98]"
proof -
  obtain t where t: "run defaultHashFunction HashMap twelve_sets = Some t"
    and imp: "(case loadFactor t of None \<Rightarrow> False | Some f \<Rightarrow> 3 / 4 \<le> f) \<longrightarrow>
      (\<exists>t'. set_hm defaultHashFunction t [97] 2 = Some (Inr (), t') \<and>
         length (buckets t') = 2 * length (buckets t) \<and>
         get defaultHashFunction t' [97] = Some (Inr (Some 2)) \<and>
         (\<forall>k'. k' \<noteq> [97] \<longrightarrow> get defaultHashFunction t' k' = get defaultHashFunction t k'))"
    using set_with_resize_keeps_other_keys [OF valid_hash_default, of twelve_sets "[97]" 2]
    by blast
  have "map_option (\<lambda>t. (loadFactor t, length (buckets t)))
      (run defaultHashFunction HashMap twelve_sets) = Some (Some (3 / 4), 16)"
    by code_simp
  then have lf: "loadFactor t = Some (3 / 4)" "length (buckets t) = 16"
    by (simp_all add: t)
  then obtain t' where "set_hm defaultHashFunction t [97] 2 = Some (Inr (), t')"
    "length (buckets t') = 2 * length (buckets t)"
    "get defaultHashFunction t' [97] = Some (Inr (Some 2))"
    "get defaultHashFunction t' [98] = get defaultHashFunction t [98]"
    using imp by auto
  then show ?thesis using t lf by (intro exI [of _ t] exI [of _ t']) simp
qed

text \<open>
  C4 as stated fails for the key being set: after \<open>twelve_sets\<close> the load factor is
  0.75 and the key \<^verbatim>\<open>"a"\<close> is present with value 1; \<^verbatim>\<open>set("a", 2)\<close> triggers the resize,
  and \<^verbatim>\<open>get("a")\<close> then returns 2, not the previous value.
\<close>

theorem set_with_resize_changes_set_key:
  "\<exists>t t'. run defaultHashFunction HashMap twelve_sets = Some t \<and>
     loadFactor t = Some (3 / 4) \<and>
     has defaultHashFunction t [97] = Some (Inr True) \<and>
     set_hm defaultHashFunction t [97] 2 = Some (Inr (), t') \<and>
     get defaultHashFunction t [97] = Some (Inr (Some 1)) \<and>
     get defaultHashFunction t' [97] = Some (Inr (Some 2)) \<and>
     get defaultHashFunction t' [97] \<noteq> get defaultHashFunction t [97]"
proof -
  obtain t where t: "run defaultHashFunction HashMap twelve_sets = Some t"
    using run_HashMap [OF valid_hash_default] by blast
  have "map_option (\<lambda>t. (loadFactor t, has defaultHashFunction t [97], get defaultHashFunction t [97],
        map_option (\<lambda>(r, t'). (r, get defaultHashFunction t' [97])) (set_hm defaultHashFunction t [97] 2)))
      (run defaultHashFunction HashMap twelve_sets) =
      Some (Some (3 / 4), Some (Inr True), Some (Inr (Some 1)), Some (Inr (), Some (Inr (Some 2))))"
    by code_simp
  then have e: "loadFactor t = Some (3 / 4)" "has defaultHashFunction t [97] = Some (Inr True)"
    "get defaultHashFunction t [97] = Some (Inr (Some 1))"
    "map_option (\<lambda>(r, t'). (r, get defaultHashFunction t' [97])) (set_hm defaultHashFunction t [97] 2) =
      Some (Inr (), Some (Inr (Some 2)))"
    by (simp_all add: t)
  from e(4) obtain t' where "set_hm defaultHashFunction t [97] 2 = Some (Inr (), t')"
    "get defaultHashFunction t' [97] = Some (Inr (Some 2))"
    by auto
  then show ?thesis using t e(1,2,3) by (intro exI [of _ t] exI [of _ t']) simp
qed


text \<open>
  C5. In every table state reached from a new table, \<^verbatim>\<open>set\<close> first runs
  \<^verbatim>\<open>resizeBucketsIfNeeded\<close>, which returns a table whose load factor is below 0.75,
  and only then computes the index and appends (\<open>put\<close>) in that table. The append
  keeps the number of buckets and adds at most one entry, so after \<^verbatim>\<open>set\<close> returns
  the load factor is below 0.75 once the one entry just inserted is discounted.
\<close>

theorem load_factor_below_threshold_before_insertion:
  assumes "valid_hash hashFn"
  shows "\<exists>t t1 t'. run hashFn HashMap ops = Some t \<and>
     resizeBucketsIfNeeded (set_hm hashFn) t = Some (Inr (), t1) \<and>
     (\<exists>f. loadFactor t1 = Some f \<and> f < 3 / 4) \<and>
     put hashFn t1 k v = Some (Inr (), t') \<and> set_hm hashFn t k v = Some (Inr (), t') \<and>
     length (buckets t') = length (buckets t1) \<and> length_hm t' \<le> length_hm t1 + 1 \<and>
     (\<exists>f'. loadFactor t' = Some f' \<and> f' - 1 / of_nat (length (buckets t')) < 3 / 4)"
proof -
  obtain t where t: "run hashFn HashMap ops = Some t" "table_ok hashFn t"
    using run_HashMap [OF assms, of ops] by blast
  obtain t1 t' where s: "resizeBucketsIfNeeded (set_hm hashFn) t = Some (Inr (), t1)"
    "4 * length_hm t1 < 3 * length (buckets t1)" "length_hm t1 = length_hm t"
    "put hashFn t1 k v = Some (Inr (), t')" "set_hm hashFn t k v = Some (Inr (), t')"
    "table_ok hashFn t'" "length (buckets t') = length (buckets t1)"
    "length_hm t' = (if get hashFn t k = Some (Inr None) then Suc (length_hm t) else length_hm t)"
    using set_hm_spec [OF t(2) assms, of k v] by blast
  have n': "0 < length (buckets t')" using s(6) by (simp add: table_ok_def)
  then have n1: "0 < length (buckets t1)" using s(7) by simp
  have le: "length_hm t' \<le> length_hm t1 + 1" using s(3,8) by simp
  have before: "\<exists>f. loadFactor t1 = Some f \<and> f < 3 / 4"
    using loadFactor_less [OF n1] s(2) by auto
  have "4 * length_hm t' < 3 * length (buckets t') + 4" using le s(2,7) by simp
  then have after: "\<exists>f'. loadFactor t' = Some f' \<and> f' - 1 / of_nat (length (buckets t')) < 3 / 4"
    using loadFactor_less [OF n'] by auto
  show ?thesis
    using t(1) s(1,4,5,7) le before after
    by (intro exI [of _ t] exI [of _ t1] exI [of _ t']) simp
qed

theorem load_factor_below_threshold_before_insertion_witness:
  "\<exists>t t1 t'. run defaultHashFunction HashMap twelve_sets = Some t \<and>
     loadFactor t = Some (3 / 4) \<and>
     resizeBucketsIfNeeded (set_hm defaultHashFunction) t = Some (Inr (), t1) \<and>
     (\<exists>f. loadFactor t1 = Some f \<and> f < 3 / 4) \<and>
     set_hm defaultHashFunction t [109] 1 = Some (Inr (), t') \<and>
     (\<exists>f'. loadFactor t' = Some f' \<and> f' - 1 / of_nat (length (buckets t')) < 3 / 4)"
proof -
  obtain t t1 t' where w: "run defaultHashFunction HashMap twelve_sets = Some t"
    "resizeBucketsIfNeeded (set_hm defaultHashFunction) t = Some (Inr (), t1)"
    "\<exists>f. loadFactor t1 = Some f \<and> f < 3 / 4"
    "set_hm defaultHashFunction t [109] 1 = Some (Inr (), t')"
    "\<exists>f'. loadFactor t' = Some f' \<and> f' - 1 / of_nat (length (buckets t')) < 3 / 4"
    using load_factor_below_threshold_before_insertion
      [OF valid_hash_default, of twelve_sets "[109]" 1]
    by blast
  have "map_option loadFactor (run defaultHashFunction HashMap twelve_sets) = Some (Some (3 / 4))"
    by code_simp
  then have "loadFactor t = Some (3 / 4)" by (simp add: w(1))
  then show ?thesis using w by (intro exI [of _ t] exI [of _ t1] exI [of _ t']) simp
qed

text \<open>
  C6, as amended. In every table state reached from a new table, a second
  \<^verbatim>\<open>set(k, v)\<close> right after \<^verbatim>\<open>set(k, v)\<close> returns and leaves \<^verbatim>\<open>length()\<close> and the result
  of every \<^verbatim>\<open>get\<close> as they are after the first. If the load factor after the first call
  is below 0.75 the second call leaves the whole table state unchanged; otherwise it
  resizes, and the number of buckets doubles.
\<close>

theorem repeated_set_keeps_contents:
  assumes "valid_hash hashFn"
  shows "\<exists>t t1 t2. run hashFn HashMap ops = Some t \<and>
     set_hm hashFn t k v = Some (Inr (), t1) \<and> set_hm hashFn t1 k v = Some (Inr (), t2) \<and>
     length_hm t2 = length_hm t1 \<and> (\<forall>k'. get hashFn t2 k' = get hashFn t1 k') \<and>
     (if (case loadFactor t1 of None \<Rightarrow> False | Some f \<Rightarrow> 3 / 4 \<le> f)
      then length (buckets t2) = 2 * length (buckets t1) else t2 = t1)"
proof -
  obtain t where t: "run hashFn HashMap ops = Some t" "table_ok hashFn t"
    using run_HashMap [OF assms, of ops] by blast
  obtain t1 where t1: "set_hm hashFn t k v = Some (Inr (), t1)" "table_ok hashFn t1"
    "\<And>k'. get hashFn t1 k' = (if k' = k then Some (Inr (Some v)) else get hashFn t k')"
    using set_hm_spec [OF t(2) assms, of k v] by blast
  have n1: "0 < length (buckets t1)" using t1(2) by (simp add: table_ok_def)
  have g: "get hashFn t1 k = Some (Inr (Some v))" using t1(3) [of k] by simp
  obtain t2 where t2: "set_hm hashFn t1 k v = Some (Inr (), t2)"
    "length (buckets t2) =
       (if 3 * length (buckets t1) \<le> 4 * length_hm t1 then 2 * length (buckets t1)
        else length (buckets t1))"
    "\<And>k'. get hashFn t2 k' = (if k' = k then Some (Inr (Some v)) else get hashFn t1 k')"
    "length_hm t2 = (if get hashFn t1 k = Some (Inr None) then Suc (length_hm t1) else length_hm t1)"
    "get hashFn t1 k = Some (Inr (Some v)) \<and> \<not> 3 * length (buckets t1) \<le> 4 * length_hm t1 \<longrightarrow>
        t2 = t1"
    using set_hm_spec [OF t1(2) assms, of k v] by blast
  have "length_hm t2 = length_hm t1" using t2(4) g by simp
  moreover have "get hashFn t2 k' = get hashFn t1 k'" for k'
    using t2(3) [of k'] g by simp
  moreover have "if (case loadFactor t1 of None \<Rightarrow> False | Some f \<Rightarrow> 3 / 4 \<le> f)
      then length (buckets t2) = 2 * length (buckets t1) else t2 = t1"
    using t2(2,5) g resize_needed_iff [OF n1] by simp
  ultimately show ?thesis
    using t(1) t1(1) t2(1) by (intro exI [of _ t] exI [of _ t1] exI [of _ t2]) simp
qed

theorem repeated_set_keeps_contents_witness:
  "\<exists>t t1 t2. run defaultHashFunction HashMap [Set [97] (1 :: nat), Set [98] 2] = Some t \<and>
     set_hm defaultHashFunction t [99] 3 = Some (Inr (), t1) \<and>
     set_hm defaultHashFunction t1 [99] 3 = Some (Inr (), t2) \<and>
     length_hm t2 = length_hm t1 \<and> (\<forall>k'. get defaultHashFunction t2 k' = get defaultHashFunction t1 k') \<and>
     (if (case loadFactor t1 of None \<Rightarrow> False | Some f \<Rightarrow> 3 / 4 \<le> f)
      then length (buckets t2) = 2 * length (buckets t1) else t2 = t1)"
  using repeated_set_keeps_contents
    [OF valid_hash_default, of "[Set [97] (1 :: nat), Set [98] 2]" "[99]" 3]
  by blast

text \<open>
  C6 as stated fails when the first call leaves the load factor at 0.75: the last
  operation of \<open>twelve_sets\<close> is \<^verbatim>\<open>set("l", 1)\<close>; the same call again resizes the table
  from 16 to 32 buckets and allocates a new entry for each of the twelve keys.
\<close>

theorem repeated_set_may_resize:
  "\<exists>t1 t2. run defaultHashFunction HashMap twelve_sets = Some t1 \<and>
     last twelve_sets = Set [108] 1 \<and>
     set_hm defaultHashFunction t1 [108] 1 = Some (Inr (), t2) \<and>
     length (buckets t1) = 16 \<and> length (buckets t2) = 32 \<and>
     length (heap t1) = 12 \<and> length (heap t2) = 24 \<and> t2 \<noteq> t1"
proof -
  obtain t1 where t: "run defaultHashFunction HashMap twelve_sets = Some t1"
    using run_HashMap [OF valid_hash_default] by blast
  have "map_option (\<lambda>t. (length (buckets t), length (heap t),
        map_option (\<lambda>(r, t'). (r, length (buckets t'), length (heap t')))
          (set_hm defaultHashFunction t [108] 1)))
      (run defaultHashFunction HashMap twelve_sets) =
      Some (16, 12, Some (Inr (), 32, 24))"
    by code_simp
  then have e: "length (buckets t1) = 16" "length (heap t1) = 12"
    "map_option (\<lambda>(r, t'). (r, length (buckets t'), length (heap t')))
          (set_hm defaultHashFunction t1 [108] 1) = Some (Inr (), 32, 24)"
    by (simp_all add: t)
  from e(3) obtain t2 where t2: "set_hm defaultHashFunction t1 [108] 1 = Some (Inr (), t2)"
    "length (buckets t2) = 32" "length (heap t2) = 24"
    by auto
  have "t2 \<noteq> t1" using e(1) t2(2) by auto
  moreover have "last twelve_sets = Set [108] 1" by (simp add: twelve_sets_def)
  ultimately show ?thesis using t e(1,2) t2
    by (intro exI [of _ t1] exI [of _ t2]) simp
qed


section \<open>Rebuilding a table from its entries\<close>

lemma latest_value_sets:
  "latest_value k (map (\<lambda>(k, v). Set k v) es) = map_of es k"
  by (induction es) auto

text \<open>
  C7. After every sequence of operations on a new table (of \<^verbatim>\<open>set\<close> operations in
  particular), \<^verbatim>\<open>entries()\<close> returns, and setting the returned pairs one after
  another in an empty table of any positive number of buckets, under any hash
  function that returns bucket indices, gives a table in which \<^verbatim>\<open>get\<close> of every key
  returns what it returns in the original.
\<close>

theorem entries_round_trip:
  fixes h1 h2 :: "'k hashFn" and ops :: "('k, 'v) operation list"
  assumes "valid_hash h1" "valid_hash h2" "0 < n2"
  shows "\<exists>t es t2. run h1 HashMap ops = Some t \<and> entries t = Some es \<and>
     run h2 (resize n2 HashMap) (map (\<lambda>(k, v). Set k v) es) = Some t2 \<and>
     (\<forall>k. get h2 t2 k = get h1 t k)"
proof -
  obtain t where t: "run h1 HashMap ops = Some t" "table_ok h1 t"
    using run_HashMap [OF assms(1), of ops] by blast
  from t(2) obtain ass where inv: "table_inv h1 t ass" and n: "0 < length (buckets t)"
    by (auto simp: table_ok_def)
  obtain es where es: "entries t = Some es" "distinct (map fst es)"
    "\<And>k. get h1 t k = Some (Inr (map_of es k))"
    using entries_spec [OF inv assms(1) n] by blast
  define fresh :: "('k, 'v) HashMap" where "fresh = resize n2 HashMap"
  have ok: "table_ok h2 fresh"
    unfolding fresh_def using assms(3) by (rule fresh_table_ok)
  have empty: "\<And>k. get h2 fresh k = Some (Inr (Map.empty k))"
    by (simp add: fresh_def get_resize [OF assms(2,3)])
  obtain t2 where t2: "run h2 fresh (map (\<lambda>(k, v). Set k v) es) = Some t2"
    "\<And>k. get h2 t2 k =
       Some (Inr (foldl (\<lambda>m x. apply_op x m) Map.empty (map (\<lambda>(k, v). Set k v) es) k))"
    using run_spec [OF ok assms(2) empty, of "map (\<lambda>(k, v). Set k v) es"] by blast
  have "get h2 t2 k = get h1 t k" for k
  proof -
    have "latest_value k (rev (map (\<lambda>(k, v). Set k v) es)) = map_of (rev es) k"
      by (simp add: rev_map latest_value_sets)
    then show ?thesis
      by (simp add: t2(2) es(3) foldl_apply_op_latest_value map_of_rev_distinct [OF es(2)])
  qed
  then show ?thesis using t(1) es(1) t2(1) unfolding fresh_def by blast
qed

theorem entries_round_trip_witness:
  "\<exists>t es t2. run defaultHashFunction HashMap
        [Set [97] (1 :: nat), Set [113] 2, Set [97] 3] = Some t \<and>
     entries t = Some es \<and>
     run defaultHashFunction (resize 3 HashMap) (map (\<lambda>(k, v). Set k v) es) = Some t2 \<and>
     (\<forall>k. get defaultHashFunction t2 k = get defaultHashFunction t k)"
  using entries_round_trip [OF valid_hash_default valid_hash_default,
      of 3 "[Set [97] (1 :: nat), Set [113] 2, Set [97] 3]"]
  by simp

section \<open>Misuse\<close>

text \<open>
  C9 as stated fails: after \<open>two_chains\<close> bucket 1 holds the keys \<^verbatim>\<open>"q"\<close>, \<^verbatim>\<open>"a"\<close> and
  bucket 2 the keys \<^verbatim>\<open>"r"\<close>, \<^verbatim>\<open>"b"\<close>. \<^verbatim>\<open>remove\<close> of bucket 1, called with the entry
  of \<^verbatim>\<open>"b"\<close>, returns without an error: bucket 1 still holds its two entries with
  a count of 1, and bucket 2 has lost \<^verbatim>\<open>"b"\<close> with a count of 2.
\<close>

theorem remove_ll_foreign_entry_no_error:
  "(let t = the (run defaultHashFunction HashMap two_chains);
        keys_of = (\<lambda>h l. forEach h l (\<lambda>node r. r @ [key node]) [])
    in run defaultHashFunction HashMap two_chains \<noteq> None \<and>
       keys_of (heap t) (buckets t ! 1) = Some [[113], [97]] \<and>
       keys_of (heap t) (buckets t ! 2) = Some [[114], [98]] \<and>
       key (heap t ! 2) = [98] \<and>
       (case remove_ll (heap t) (buckets t ! 1) 2 of
          (r, h', l') \<Rightarrow>
            r = Inr () \<and> nodeCount l' = 1 \<and> keys_of h' l' = Some [[113], [97]] \<and>
            nodeCount (buckets t ! 2) = 2 \<and> keys_of h' (buckets t ! 2) = Some [[114]]))"
  by code_simp

text \<open>
  C9, as amended. Neither misuse is checked. \<^verbatim>\<open>HashMap(hashFn)\<close> takes no bucket
  count and always builds 16 buckets. \<^verbatim>\<open>LinkedList.remove\<close> never tests whether the
  entry belongs to the list: on a list whose count is 0 it does nothing, and for an
  entry that has a \<^verbatim>\<open>prev\<close> or a \<^verbatim>\<open>next\<close> neighbour it returns without an error,
  whether the entry belongs to the list or not.
\<close>

theorem remove_ll_checks_no_membership:
  assumes "prev (h ! a) \<noteq> None \<or> next (h ! a) \<noteq> None"
  shows "length (buckets (HashMap :: ('k, 'v) HashMap)) = 16 \<and>
    fst (remove_ll h l a) = Inr () \<and>
    remove_ll h (l\<lparr>nodeCount := 0\<rparr>) a = (Inr (), h, l\<lparr>nodeCount := 0\<rparr>)"
proof -
  have "fst (remove_ll h l a) = Inr ()"
  proof (cases "prev (h ! a)")
    case None
    then obtain n where n: "next (h ! a) = Some n" using assms by auto
    have "next (h[n := (h ! n)\<lparr>prev := None\<rparr>] ! a) = Some n"
      using n by (cases "n < length h"; cases "n = a") (simp_all add: list_update_beyond)
    with None n show ?thesis
      by (simp add: remove_ll_def assign_prev_def)
  next
    case (Some p)
    have nx: "next (h[p := (h ! p)\<lparr>next := x\<rparr>] ! a) = x" if "next (h ! a) = x" for x
      using that by (cases "p < length h"; cases "p = a") (simp_all add: list_update_beyond)
    have pv: "prev (h[p := (h ! p)\<lparr>next := x\<rparr>] ! a) = Some p" for x
      using Some by (cases "p < length h"; cases "p = a") (simp_all add: list_update_beyond)
    show ?thesis
    proof (cases "next (h ! a)")
      case None
      then show ?thesis
        using Some nx [of None] pv [of None]
        by (simp add: remove_ll_def assign_prev_def assign_next_def)
    next
      case (Some n)
      then show ?thesis
        using \<open>prev (h ! a) = Some p\<close> nx [of "Some n"] pv [of "Some n"]
        by (simp add: remove_ll_def assign_prev_def assign_next_def)
    qed
  qed
  moreover have "remove_ll h (l\<lparr>nodeCount := 0\<rparr>) a = (Inr (), h, l\<lparr>nodeCount := 0\<rparr>)"
    by (simp add: remove_ll_def)
  ultimately show ?thesis by (simp add: HashMap_def resize_def)
qed

theorem remove_ll_checks_no_membership_witness:
  "prev ([\<lparr>key = [97 :: 16 word], val = 1 :: nat, next = None, prev = Some 1\<rparr>,
          \<lparr>key = [113], val = 2, next = Some 0, prev = None\<rparr>,
          \<lparr>key = [98], val = 3, next = None, prev = None\<rparr>] ! 0) = Some 1 \<and>
   list_inv [\<lparr>key = [97 :: 16 word], val = 1 :: nat, next = None, prev = Some 1\<rparr>,
          \<lparr>key = [113], val = 2, next = Some 0, prev = None\<rparr>,
          \<lparr>key = [98], val = 3, next = None, prev = None\<rparr>]
     \<lparr>firstNode = Some 2, lastNode = Some 2, nodeCount = 1\<rparr> [2] \<and>
   fst (remove_ll [\<lparr>key = [97 :: 16 word], val = 1 :: nat, next = None, prev = Some 1\<rparr>,
          \<lparr>key = [113], val = 2, next = Some 0, prev = None\<rparr>,
          \<lparr>key = [98], val = 3, next = None, prev = None\<rparr>]
     \<lparr>firstNode = Some 2, lastNode = Some 2, nodeCount = 1\<rparr> 0) = Inr ()"
proof -
  have p: "prev ([\<lparr>key = [97 :: 16 word], val = 1 :: nat, next = None, prev = Some 1\<rparr>,
          \<lparr>key = [113], val = 2, next = Some 0, prev = None\<rparr>,
          \<lparr>key = [98], val = 3, next = None, prev = None\<rparr>] ! 0) = Some 1"
    by simp
  then have "prev ([\<lparr>key = [97 :: 16 word], val = 1 :: nat, next = None, prev = Some 1\<rparr>,
          \<lparr>key = [113], val = 2, next = Some 0, prev = None\<rparr>,
          \<lparr>key = [98], val = 3, next = None, prev = None\<rparr>] ! 0) \<noteq> None \<or>
      next ([\<lparr>key = [97 :: 16 word], val = 1 :: nat, next = None, prev = Some 1\<rparr>,
          \<lparr>key = [113], val = 2, next = Some 0, prev = None\<rparr>,
          \<lparr>key = [98], val = 3, next = None, prev = None\<rparr>] ! 0) \<noteq> None"
    by simp
  from remove_ll_checks_no_membership [OF this,
      of "\<lparr>firstNode = Some 2, lastNode = Some 2, nodeCount = 1\<rparr>"]
  have "fst (remove_ll [\<lparr>key = [97 :: 16 word], val = 1 :: nat, next = None, prev = Some 1\<rparr>,
          \<lparr>key = [113], val = 2, next = Some 0, prev = None\<rparr>,
          \<lparr>key = [98], val = 3, next = None, prev = None\<rparr>]
     \<lparr>firstNode = Some 2, lastNode = Some 2, nodeCount = 1\<rparr> 0) = Inr ()"
    by blast
  moreover have "list_inv [\<lparr>key = [97 :: 16 word], val = 1 :: nat, next = None, prev = Some 1\<rparr>,
          \<lparr>key = [113], val = 2, next = Some 0, prev = None\<rparr>,
          \<lparr>key = [98], val = 3, next = None, prev = None\<rparr>]
     \<lparr>firstNode = Some 2, lastNode = Some 2, nodeCount = 1\<rparr> [2]"
    by (simp add: list_inv_def entries_of_def)
  ultimately show ?thesis using p by blast
qed

end
